theory Spec2Isabelle
  imports Main "HOL-Library.Word"
begin

unbundle bit_operations_syntax

section \<open>The tagged save-file framework of crawl-ref/source/tags.cc\<close>

text \<open>
  C types of the source, as on the amd64 target that \<open>debian/rules\<close> builds for: \<open>char\<close> and
  \<open>unsigned char\<close> are 8 bits, \<open>short\<close> is 16 bits, \<open>int\<close> and \<open>unsigned int\<close> are 32 bits and
  \<open>long\<close> is 64 bits. The sizes of the file's header comment ("the marshalling sizes are 1, 2,
  and 4 for byte, short, and long") are the numbers of bytes in the save file. Plain \<open>char\<close> is
  signed, as the source itself expects ("Avoid sign extension when loading files",
  \<open>unmarshall_monster\<close>): a \<open>char\<close> becomes an \<open>int\<close> by \<open>sint\<close>, an \<open>unsigned char\<close> by \<open>uint\<close>.
  Buffer offsets, sizes and loop counters that the source keeps in \<open>int\<close> or \<open>long\<close> are \<open>int\<close>
  here; those of the writers stay far below \<open>2 ^ 31\<close>. The length that \<open>tag_read\<close> decodes from
  a stream can be any value below \<open>2 ^ 32\<close>, and the conversions on its way through \<open>read2\<close>
  (the \<open>unsigned int\<close> count, the \<open>int\<close> result) are written out.
\<close>

type_synonym byte = "8 word"

subsection \<open>C stdio streams\<close>

text \<open>
  A \<open>FILE\<close> opened in binary mode for reading and writing: its bytes and its position.
  I/O errors are not modelled. \<open>fgetc\<close> yields \<open>None\<close> for \<open>EOF\<close>.
\<close>

record stdio_file =
  fdata :: "byte list"
  fpos :: nat

definition fgetc :: "stdio_file \<Rightarrow> byte option \<times> stdio_file" where
  "fgetc f =
     (if fpos f < length (fdata f)
      then (Some (fdata f ! fpos f), f\<lparr>fpos := fpos f + 1\<rparr>)
      else (None, f))"

definition fputc :: "byte \<Rightarrow> stdio_file \<Rightarrow> stdio_file" where
  "fputc c f =
     f\<lparr>fdata := (fdata f @ replicate (fpos f + 1 - length (fdata f)) 0)[fpos f := c],
       fpos := fpos f + 1\<rparr>"

definition fwrite :: "byte list \<Rightarrow> stdio_file \<Rightarrow> stdio_file" where
  "fwrite bs f = fold fputc bs f"

definition fread :: "nat \<Rightarrow> stdio_file \<Rightarrow> byte list \<times> stdio_file" where
  "fread n f =
     (let got = take n (drop (fpos f) (fdata f))
      in (got, f\<lparr>fpos := fpos f + length got\<rparr>))"

definition fseek_cur :: "int \<Rightarrow> stdio_file \<Rightarrow> stdio_file" where
  "fseek_cur skip f =
     (if 0 \<le> int (fpos f) + skip then f\<lparr>fpos := nat (int (fpos f) + skip)\<rparr> else f)"

subsection \<open>tagHeader and the tag buffer\<close>

text \<open>
  Modelled from the spec: the declaration of \<open>struct tagHeader\<close> (tags.h, absent): a record
  type ID, a cursor, and an optional backing file stream ("Cursor: an offset into either the
  scratch buffer or a backing file stream"). The member functions are in tags.cc.

  \<open>tagBuffer\<close> is the process-wide scratch buffer that \<open>tag_init\<close> allocates once; it is
  passed explicitly as a byte list whose length is the allocated size. An access outside
  it is undefined behaviour in C and \<open>Buffer_overrun\<close> here.
\<close>

record tagHeader =
  tagID :: "16 word"
  offset :: int
  file_p :: "stdio_file option"

text \<open>
  The ways a call does not return to its caller. The first four are undefined behaviour
  in C: an access outside \<open>tagBuffer\<close>, outside a destination \<open>char\<close> array, outside
  a grid, outside a ghost's value array. \<open>Process_end msg code\<close> is \<open>perror(msg)\<close>
  followed by \<open>end(code)\<close>, which terminates the process.
\<close>

datatype stop =
    Buffer_overrun
  | Array_overrun
  | Grid_overrun
  | Values_overrun
  | Process_end string int

text \<open>The default constructor: a header bound to the tag buffer.\<close>

definition new_tagHeader :: tagHeader where
  "new_tagHeader = \<lparr>tagID = 0, offset = 0, file_p = None\<rparr>"

definition readByte :: "tagHeader \<Rightarrow> byte list \<Rightarrow> stop + (byte \<times> tagHeader)" where
  "readByte th buf =
     (case file_p th of
        Some f \<Rightarrow>
          (case fgetc f of
             (Some c, f') \<Rightarrow> Inr (c, th\<lparr>file_p := Some f'\<rparr>)
           | (None, f') \<Rightarrow> Inr (word_of_int (- 1), th\<lparr>file_p := Some f'\<rparr>))
      | None \<Rightarrow>
          if 0 \<le> offset th \<and> offset th < int (length buf)
          then Inr (buf ! nat (offset th), th\<lparr>offset := offset th + 1\<rparr>)
          else Inl Buffer_overrun)"

definition writeByte :: "tagHeader \<Rightarrow> byte \<Rightarrow> byte list \<Rightarrow> stop + (tagHeader \<times> byte list)" where
  "writeByte th ch buf =
     (case file_p th of
        Some f \<Rightarrow> Inr (th\<lparr>file_p := Some (fputc ch f)\<rparr>, buf)
      | None \<Rightarrow>
          if 0 \<le> offset th \<and> offset th < int (length buf)
          then Inr (th\<lparr>offset := offset th + 1\<rparr>, buf[nat (offset th) := ch])
          else Inl Buffer_overrun)"

text \<open>\<open>memcpy\<close> into the tag buffer: \<open>bs\<close> replaces the bytes from index \<open>i\<close> on.\<close>

definition memcpy_to :: "byte list \<Rightarrow> nat \<Rightarrow> byte list \<Rightarrow> byte list" where
  "memcpy_to buf i bs = take i buf @ bs @ drop (i + length bs) buf"

text \<open>\<open>tagHeader::write(data, size)\<close>: \<open>bs\<close> is the \<open>size\<close> bytes at \<open>data\<close>.\<close>

definition write_bytes :: "tagHeader \<Rightarrow> byte list \<Rightarrow> byte list \<Rightarrow> stop + (tagHeader \<times> byte list)" where
  "write_bytes th bs buf =
     (case file_p th of
        Some f \<Rightarrow> Inr (th\<lparr>file_p := Some (fwrite bs f)\<rparr>, buf)
      | None \<Rightarrow>
          if 0 \<le> offset th \<and> offset th + int (length bs) \<le> int (length buf)
          then Inr (th\<lparr>offset := offset th + int (length bs)\<rparr>,
                    memcpy_to buf (nat (offset th)) bs)
          else Inl Buffer_overrun)"

text \<open>
  \<open>tagHeader::read(data, size)\<close>: \<open>data\<close> is the destination array as it is before the
  call; the result is the array afterwards. A \<open>size\<close> beyond the destination overruns it.
  A short \<open>fread\<close> leaves the rest of the destination as it was.
\<close>

definition read_bytes ::
  "tagHeader \<Rightarrow> byte list \<Rightarrow> nat \<Rightarrow> byte list \<Rightarrow> stop + (byte list \<times> tagHeader)" where
  "read_bytes th data sz buf =
     (if length data < sz then Inl Array_overrun
      else case file_p th of
        Some f \<Rightarrow>
          (case fread sz f of
             (got, f') \<Rightarrow> Inr (got @ drop (length got) data, th\<lparr>file_p := Some f'\<rparr>))
      | None \<Rightarrow>
          if 0 \<le> offset th \<and> offset th + int sz \<le> int (length buf)
          then Inr (take sz (drop (nat (offset th)) buf) @ drop sz data,
                    th\<lparr>offset := offset th + int sz\<rparr>)
          else Inl Buffer_overrun)"

definition advance :: "tagHeader \<Rightarrow> int \<Rightarrow> tagHeader" where
  "advance th skip =
     (case file_p th of
        Some f \<Rightarrow> th\<lparr>file_p := Some (fseek_cur skip f)\<rparr>
      | None \<Rightarrow> th\<lparr>offset := offset th + skip\<rparr>)"

text \<open>
  \<open>write2\<close> and \<open>read2\<close>: the wrappers around \<open>fwrite\<close> and \<open>fread\<close>. \<open>read2\<close> takes its
  count as an \<open>unsigned int\<close> and returns the number of bytes read as an \<open>int\<close>; the bytes
  that \<open>fread\<close> delivers are returned beside it.
\<close>

definition write2 :: "stdio_file \<Rightarrow> byte list \<Rightarrow> stdio_file" where
  "write2 f bs = fwrite bs f"

definition read2 :: "stdio_file \<Rightarrow> int \<Rightarrow> int \<times> byte list \<times> stdio_file" where
  "read2 f count =
     (case fread (nat (count mod 4294967296)) f of
        (got, f1) \<Rightarrow> (sint (word_of_int (int (length got)) :: 32 word), got, f1))"

subsection \<open>Fixed-width scalars\<close>

definition marshallByte :: "tagHeader \<Rightarrow> byte \<Rightarrow> byte list \<Rightarrow> stop + (tagHeader \<times> byte list)" where
  "marshallByte th data buf = writeByte th data buf"

definition unmarshallByte :: "tagHeader \<Rightarrow> byte list \<Rightarrow> stop + (byte \<times> tagHeader)" where
  "unmarshallByte th buf = readByte th buf"

text \<open>
  \<open>marshallShort\<close>: \<open>data\<close> is promoted to \<open>int\<close> (sign-extended) before the masks;
  the masked values are non-negative, so \<open>>>\<close> is a logical shift.
\<close>

definition marshallShort :: "tagHeader \<Rightarrow> 16 word \<Rightarrow> byte list \<Rightarrow> stop + (tagHeader \<times> byte list)" where
  "marshallShort th data buf =
     (let d = (scast data :: 32 word);
          b2 = (ucast (d AND 0x00FF) :: byte);
          b1 = (ucast (drop_bit 8 (d AND 0xFF00)) :: byte)
      in case writeByte th b1 buf of
           Inl e \<Rightarrow> Inl e
         | Inr (th1, buf1) \<Rightarrow> writeByte th1 b2 buf1)"

definition unmarshallShort :: "tagHeader \<Rightarrow> byte list \<Rightarrow> stop + (16 word \<times> tagHeader)" where
  "unmarshallShort th buf =
     (case readByte th buf of
        Inl e \<Rightarrow> Inl e
      | Inr (c1, th1) \<Rightarrow>
          (case readByte th1 buf of
             Inl e \<Rightarrow> Inl e
           | Inr (c2, th2) \<Rightarrow>
               let b1 = (ucast c1 :: 16 word);
                   b2 = (ucast c2 :: 16 word);
                   data = (ucast (push_bit 8 (scast b1 :: 32 word) OR (scast b2 AND 0x00FF)) :: 16 word)
               in Inr (data, th2)))"

text \<open>
  \<open>marshallLong\<close> and \<open>unmarshallLong\<close>: \<open>data\<close> is a 64-bit \<open>long\<close>; the masks pick its four low
  bytes. \<open>unmarshallLong\<close> puts the four bytes, each an \<open>unsigned char\<close> widened to \<open>long\<close>,
  into bits 0 to 31 of a \<open>long\<close>; nothing extends bit 31 into the upper half.
\<close>

definition marshallLong :: "tagHeader \<Rightarrow> 64 word \<Rightarrow> byte list \<Rightarrow> stop + (tagHeader \<times> byte list)" where
  "marshallLong th data buf =
     (let b4 = (ucast (data AND 0x000000FF) :: byte);
          b3 = (ucast (drop_bit 8 (data AND 0x0000FF00)) :: byte);
          b2 = (ucast (drop_bit 16 (data AND 0x00FF0000)) :: byte);
          b1 = (ucast (drop_bit 24 (data AND 0xFF000000)) :: byte)
      in case writeByte th b1 buf of
           Inl e \<Rightarrow> Inl e
         | Inr (th1, buf1) \<Rightarrow>
             (case writeByte th1 b2 buf1 of
                Inl e \<Rightarrow> Inl e
              | Inr (th2, buf2) \<Rightarrow>
                  (case writeByte th2 b3 buf2 of
                     Inl e \<Rightarrow> Inl e
                   | Inr (th3, buf3) \<Rightarrow> writeByte th3 b4 buf3)))"

definition unmarshallLong :: "tagHeader \<Rightarrow> byte list \<Rightarrow> stop + (64 word \<times> tagHeader)" where
  "unmarshallLong th buf =
     (case readByte th buf of
        Inl e \<Rightarrow> Inl e
      | Inr (c1, th1) \<Rightarrow>
          (case readByte th1 buf of
             Inl e \<Rightarrow> Inl e
           | Inr (c2, th2) \<Rightarrow>
               (case readByte th2 buf of
                  Inl e \<Rightarrow> Inl e
                | Inr (c3, th3) \<Rightarrow>
                    (case readByte th3 buf of
                       Inl e \<Rightarrow> Inl e
                     | Inr (c4, th4) \<Rightarrow>
                         let b1 = (ucast c1 :: 64 word);
                             b2 = (ucast c2 :: 64 word);
                             b3 = (ucast c3 :: 64 word);
                             b4 = (ucast c4 :: 64 word);
                             data = push_bit 24 b1 OR push_bit 16 (b2 AND 0x000000FF);
                             data = data OR (push_bit 8 (b3 AND 0x000000FF) OR (b4 AND 0x000000FF))
                         in Inr (data, th4)))))"

subsection \<open>Run-length grid codec\<close>

text \<open>
  \<open>run_length_encode\<close> and \<open>run_length_decode\<close> are templates over the element codec and
  the grid; the repository instantiates them once, with \<open>marshallByte\<close>,
  \<open>unmarshallByte\<close> and \<open>env.grid_colours\<close> (\<open>tag_construct_level\<close>, \<open>tag_read_level\<close>),
  and that instance is modelled. The grid \<open>g[x][y]\<close> is a function of \<open>x\<close> and \<open>y\<close>. The cell
  type of the grid is declared outside tags.cc, so the implicit conversions of the source,
  \<open>int last = g[x][y]\<close> and \<open>g[x][y] = value\<close>, are the parameters \<open>cell_to_int\<close> and \<open>int_to_cell\<close>.
  \<open>marshallByte(th, last)\<close> converts the \<open>int\<close> to \<open>char\<close> (\<open>word_of_int\<close>);
  \<open>const int value = um(th)\<close> converts the \<open>char\<close> to \<open>int\<close> (\<open>sint\<close>).
  \<open>width\<close> and \<open>height\<close> are not negative. A store into a cell outside
  \<open>width\<close> by \<open>height\<close> is \<open>Grid_overrun\<close>.
\<close>

text \<open>The body of the inner loop, for the cell value \<open>c = g[x][y]\<close>.\<close>

definition rle_cell ::
  "int \<Rightarrow> int \<times> int \<times> tagHeader \<times> byte list \<Rightarrow> stop + (int \<times> int \<times> tagHeader \<times> byte list)" where
  "rle_cell c s =
     (case s of (last0, nlast, th, buf) \<Rightarrow>
        (let last1 = (if nlast = 0 then c else last0)
         in (if last1 = c \<and> nlast < 255 then Inr (last1, nlast + 1, th, buf)
             else (case marshallByte th (word_of_int nlast) buf of
                     Inl e \<Rightarrow> Inl e
                   | Inr (th1, buf1) \<Rightarrow>
                       (case marshallByte th1 (word_of_int last1) buf1 of
                          Inl e \<Rightarrow> Inl e
                        | Inr (th2, buf2) \<Rightarrow> Inr (c, 1, th2, buf2))))))"

definition rle_next ::
  "int \<Rightarrow> stop + (int \<times> int \<times> tagHeader \<times> byte list) \<Rightarrow> stop + (int \<times> int \<times> tagHeader \<times> byte list)" where
  "rle_next c st = (case st of Inl e \<Rightarrow> Inl e | Inr s \<Rightarrow> rle_cell c s)"

text \<open>The final flush of the encoder, after the loops.\<close>

definition rle_flush ::
  "stop + (int \<times> int \<times> tagHeader \<times> byte list) \<Rightarrow> stop + (tagHeader \<times> byte list)" where
  "rle_flush st =
     (case st of
        Inl e \<Rightarrow> Inl e
      | Inr (last1, nlast, th1, buf1) \<Rightarrow>
          (case marshallByte th1 (word_of_int nlast) buf1 of
             Inl e \<Rightarrow> Inl e
           | Inr (th2, buf2) \<Rightarrow> marshallByte th2 (word_of_int last1) buf2))"

definition run_length_encode ::
  "('c \<Rightarrow> int) \<Rightarrow> tagHeader \<Rightarrow> (nat \<Rightarrow> nat \<Rightarrow> 'c) \<Rightarrow> nat \<Rightarrow> nat \<Rightarrow> byte list
     \<Rightarrow> stop + (tagHeader \<times> byte list)" where
  "run_length_encode cell_to_int th g width height buf =
     rle_flush (fold (\<lambda>y. fold (\<lambda>x. rle_next (cell_to_int (g x y))) [0..<width]) [0..<height]
                  (Inr (0, 0, th, buf)))"

text \<open>The \<open>for (int i = 0; i < run; ++i)\<close> loop of the decoder; \<open>n\<close> counts the cells left.\<close>

primrec fill_run ::
  "nat \<Rightarrow> (nat \<Rightarrow> nat \<Rightarrow> 'c) \<Rightarrow> 'c \<Rightarrow> nat \<Rightarrow> nat \<Rightarrow> nat \<Rightarrow> stop + ((nat \<Rightarrow> nat \<Rightarrow> 'c) \<times> nat)" where
  "fill_run 0 g v width height off = Inr (g, off)"
| "fill_run (Suc n) g v width height off =
     (let y = off div width; x = off mod width
      in if x < width \<and> y < height
         then fill_run n (g(x := (g x)(y := v))) v width height (off + 1)
         else Inl Grid_overrun)"

text \<open>Bytes that the cursor of a header can still read.\<close>

definition bytes_left :: "tagHeader \<Rightarrow> byte list \<Rightarrow> nat" where
  "bytes_left th buf =
     (case file_p th of
        Some f \<Rightarrow> length (fdata f) - fpos f
      | None \<Rightarrow> nat (int (length buf) - offset th))"

function rld_loop ::
  "(int \<Rightarrow> 'c) \<Rightarrow> nat \<Rightarrow> nat \<Rightarrow> byte list \<Rightarrow> tagHeader \<Rightarrow> (nat \<Rightarrow> nat \<Rightarrow> 'c) \<Rightarrow> nat
     \<Rightarrow> stop + (tagHeader \<times> (nat \<Rightarrow> nat \<Rightarrow> 'c))" where
  "rld_loop int_to_cell width height buf th g off =
     (if off < width * height
      then case unmarshallByte th buf of
             Inl e \<Rightarrow> Inl e
           | Inr (r, th1) \<Rightarrow>
               (case unmarshallByte th1 buf of
                  Inl e \<Rightarrow> Inl e
                | Inr (v, th2) \<Rightarrow>
                    (case fill_run (unat r) g (int_to_cell (sint v)) width height off of
                       Inl e \<Rightarrow> Inl e
                     | Inr (g1, off1) \<Rightarrow> rld_loop int_to_cell width height buf th2 g1 off1))
      else Inr (th, g))"
  by pat_completeness auto

text \<open>Facts that the termination of the decoder's loop rests on.\<close>

lemma fill_run_off:
  "fill_run n g v width height off = Inr (g1, off1) \<Longrightarrow>
   off1 = off + n \<and> (n > 0 \<longrightarrow> off1 \<le> width * height)"
proof (induction n arbitrary: g off)
  case 0
  then show ?case by simp
next
  case (Suc n)
  from Suc.prems have ok: "off mod width < width" "off div width < height"
    and rec: "fill_run n (g(off mod width := (g (off mod width))(off div width := v)))
                v width height (off + 1) = Inr (g1, off1)"
    by (simp_all add: Let_def split: if_splits)
  from Suc.IH[OF rec] have "off1 = off + Suc n" and "n > 0 \<longrightarrow> off1 \<le> width * height"
    by auto
  moreover have "off < width * height"
  proof -
    from ok(1) have "0 < width" by (cases width) simp_all
    with ok(2) show ?thesis by (simp add: div_less_iff_less_mult mult.commute)
  qed
  ultimately show ?case by (cases n) auto
qed

lemma readByte_left:
  assumes "readByte th buf = Inr (c, th1)"
  shows "bytes_left th1 buf \<le> bytes_left th buf \<and>
         (bytes_left th1 buf < bytes_left th buf \<or> c = 255)"
proof (cases "file_p th")
  case None
  with assms show ?thesis
    by (auto simp: readByte_def bytes_left_def split: if_splits)
next
  case (Some f)
  with assms show ?thesis
    by (cases "fpos f < length (fdata f)") (auto simp: readByte_def bytes_left_def fgetc_def)
qed

text \<open>
  Each round of the loop reads two bytes. Either the cursor moves on, or the stream is at
  its end, the run byte is \<open>(unsigned char) EOF = 255\<close> and the grid offset grows.
\<close>

termination rld_loop
proof (relation "measure (\<lambda>(i2c, width, height, buf, th, g, off).
                   (width * height - off) + bytes_left th buf)", goal_cases)
  case 1
  then show ?case by simp
next
  case (2 int_to_cell width height buf th g off x2 r th1 x2a v th2 x2b g1 off1)
  then have r: "readByte th buf = Inr (r, th1)" and v: "readByte th1 buf = Inr (v, th2)"
    and f: "fill_run (unat r) g (int_to_cell (sint v)) width height off = Inr (g1, off1)"
    by (simp_all add: unmarshallByte_def)
  from fill_run_off[OF f]
  have o: "off1 = off + unat r" "unat r > 0 \<longrightarrow> off1 \<le> width * height" by auto
  from readByte_left[OF r] readByte_left[OF v]
  have b: "bytes_left th2 buf \<le> bytes_left th buf"
    "bytes_left th2 buf < bytes_left th buf \<or> r = 255" by auto
  show ?case
  proof (cases "r = 255")
    case True
    with o have "off1 = off + 255" "off1 \<le> width * height" by simp_all
    with b(1) show ?thesis by simp
  next
    case False
    with b have "bytes_left th2 buf < bytes_left th buf" by simp
    with o(1) show ?thesis by simp
  qed
qed

declare rld_loop.simps [simp del]

definition run_length_decode ::
  "(int \<Rightarrow> 'c) \<Rightarrow> tagHeader \<Rightarrow> (nat \<Rightarrow> nat \<Rightarrow> 'c) \<Rightarrow> nat \<Rightarrow> nat \<Rightarrow> byte list
     \<Rightarrow> stop + (tagHeader \<times> (nat \<Rightarrow> nat \<Rightarrow> 'c))" where
  "run_length_decode int_to_cell th g width height buf =
     rld_loop int_to_cell width height buf th g 0"

subsection \<open>Strings\<close>

text \<open>
  A \<open>std::string\<close> is its bytes. \<open>marshallString\<close>: \<open>th.write(data.c_str(), len)\<close> writes
  the first \<open>len\<close> bytes; \<open>marshallShort(th, len)\<close> converts the \<open>int\<close> to \<open>short\<close>.
\<close>

definition marshallString ::
  "tagHeader \<Rightarrow> byte list \<Rightarrow> int \<Rightarrow> byte list \<Rightarrow> stop + (tagHeader \<times> byte list)" where
  "marshallString th data maxSize buf =
     (let len0 = int (length data);
          len = (if maxSize > 0 \<and> len0 > maxSize then maxSize else len0)
      in case marshallShort th (word_of_int len) buf of
           Inl e \<Rightarrow> Inl e
         | Inr (th1, buf1) \<Rightarrow> write_bytes th1 (take (nat len) data) buf1)"

text \<open>
  \<open>unmarshallCString(th, data, maxSize)\<close>: \<open>data\<close> is the caller's array as it is before
  the call; the result is \<open>copylen\<close>, the array afterwards and the header. A negative
  \<open>copylen\<close> becomes a huge \<open>size_t\<close> in \<open>th.read\<close> and a negative index in
  \<open>data[copylen] = 0\<close>: \<open>Array_overrun\<close>.
\<close>

definition unmarshallCString ::
  "tagHeader \<Rightarrow> byte list \<Rightarrow> int \<Rightarrow> byte list \<Rightarrow> stop + (int \<times> byte list \<times> tagHeader)" where
  "unmarshallCString th data maxSize buf =
     (case unmarshallShort th buf of
        Inl e \<Rightarrow> Inl e
      | Inr (len, th1) \<Rightarrow>
          (let copylen = (if sint len \<ge> maxSize \<and> maxSize > 0 then maxSize - 1 else sint len)
           in if copylen < 0 then Inl Array_overrun
              else (case read_bytes th1 data (nat copylen) buf of
                      Inl e \<Rightarrow> Inl e
                    | Inr (data1, th2) \<Rightarrow>
                        if nat copylen < length data1
                        then Inr (copylen, data1[nat copylen := 0],
                                  advance th2 (sint len - copylen))
                        else Inl Array_overrun)))"

text \<open>
  \<open>unmarshallString\<close>: \<open>new char [maxSize]\<close> is an array of \<open>maxSize\<close> bytes; the bytes
  that the source leaves uninitialised are 0 here (they are read only after a short
  \<open>fread\<close> from a backing stream). \<open>new\<close> does not fail. The result is
  \<open>std::string(buffer, slen)\<close>.
\<close>

definition unmarshallString ::
  "tagHeader \<Rightarrow> int \<Rightarrow> byte list \<Rightarrow> stop + (byte list \<times> tagHeader)" where
  "unmarshallString th maxSize buf =
     (if maxSize \<le> 0 then Inr ([], th)
      else (let buffer = (replicate (nat maxSize) 0)[0 := 0]
            in case unmarshallCString th buffer maxSize buf of
                 Inl e \<Rightarrow> Inl e
               | Inr (slen, buffer1, th1) \<Rightarrow> Inr (take (nat slen) buffer1, th1)))"

subsection \<open>Tags\<close>

text \<open>
  Modelled from the spec: the enumeration \<open>tag_type\<close> of tags.h (absent). The header
  comment of tags.cc gives \<open>TAG_YOU = 1\<close> and the order up to \<open>TAG_GHOST\<close>;
  \<open>TAG_VERSION\<close> is the first enumerator (the spec: "type ID 0 is reserved as no record
  found"), \<open>TAG_LEVEL_ATTITUDE\<close> and \<open>TAG_LOST_MONSTERS\<close> were added after \<open>TAG_GHOST\<close>.
\<close>

definition TAG_VERSION :: int where "TAG_VERSION = 0"
definition TAG_YOU :: int where "TAG_YOU = 1"
definition TAG_YOU_ITEMS :: int where "TAG_YOU_ITEMS = 2"
definition TAG_YOU_DUNGEON :: int where "TAG_YOU_DUNGEON = 3"
definition TAG_LEVEL :: int where "TAG_LEVEL = 4"
definition TAG_LEVEL_ITEMS :: int where "TAG_LEVEL_ITEMS = 5"
definition TAG_LEVEL_MONSTERS :: int where "TAG_LEVEL_MONSTERS = 6"
definition TAG_GHOST :: int where "TAG_GHOST = 7"
definition TAG_LEVEL_ATTITUDE :: int where "TAG_LEVEL_ATTITUDE = 8"
definition TAG_LOST_MONSTERS :: int where "TAG_LOST_MONSTERS = 9"

text \<open>
  \<open>write2(saveFile, tagBuffer, count)\<close> with \<open>count = th.offset\<close>: the first \<open>count\<close>
  bytes of the tag buffer. A \<open>count\<close> beyond the buffer (a negative one is a huge
  \<open>unsigned int\<close>) reads outside it.
\<close>

definition write_tagBuffer :: "stdio_file \<Rightarrow> byte list \<Rightarrow> int \<Rightarrow> stop + stdio_file" where
  "write_tagBuffer saveFile buf count =
     (if 0 \<le> count \<and> count \<le> int (length buf)
      then Inr (write2 saveFile (take (nat count) buf))
      else Inl Buffer_overrun)"

text \<open>
  \<open>tag_write(th, saveFile)\<close>: the result is the header, the tag buffer and the save file
  afterwards. \<open>memcpy(swap, tagBuffer, tagHdrSize)\<close> needs 6 bytes of buffer. The stream
  of a file-backed \<open>th\<close> is a stream of its own, not \<open>saveFile\<close>.
\<close>

definition tag_write ::
  "tagHeader \<Rightarrow> byte list \<Rightarrow> stdio_file \<Rightarrow> stop + (tagHeader \<times> byte list \<times> stdio_file)" where
  "tag_write th buf saveFile =
     (let tagHdrSize = 6
      in if offset th = 0 then Inr (th, buf, saveFile)
         else if sint (tagID th) \<noteq> TAG_VERSION
         then (if length buf < tagHdrSize then Inl Buffer_overrun
               else (let swap = take tagHdrSize buf;
                         tagSize = offset th;
                         th0 = th\<lparr>offset := 0\<rparr>
                     in case marshallShort th0 (tagID th0) buf of
                          Inl e \<Rightarrow> Inl e
                        | Inr (th1, buf1) \<Rightarrow>
                            (case marshallLong th1 (word_of_int tagSize) buf1 of
                               Inl e \<Rightarrow> Inl e
                             | Inr (th2, buf2) \<Rightarrow>
                                 (case write_tagBuffer saveFile buf2 (offset th2) of
                                    Inl e \<Rightarrow> Inl e
                                  | Inr saveFile1 \<Rightarrow>
                                      (let buf3 = memcpy_to buf2 0 swap;
                                           th3 = th2\<lparr>offset := tagSize\<rparr>
                                       in case write_tagBuffer saveFile1 buf3 (offset th3) of
                                            Inl e \<Rightarrow> Inl e
                                          | Inr saveFile2 \<Rightarrow> Inr (th3, buf3, saveFile2))))))
         else (case write_tagBuffer saveFile buf (offset th) of
                 Inl e \<Rightarrow> Inl e
               | Inr saveFile1 \<Rightarrow> Inr (th, buf, saveFile1)))"

text \<open>
  \<open>read2(fp, tagBuffer, count)\<close>: \<open>fread\<close> stores the bytes it could read at the start of
  the tag buffer and \<open>read2\<close> returns their number. More bytes than the buffer holds overrun
  it.
\<close>

definition read_tagBuffer ::
  "stdio_file \<Rightarrow> byte list \<Rightarrow> int \<Rightarrow> stop + (int \<times> stdio_file \<times> byte list)" where
  "read_tagBuffer fp buf count =
     (case read2 fp count of
        (n, got, fp1) \<Rightarrow>
          if length buf < length got then Inl Buffer_overrun
          else Inr (n, fp1, memcpy_to buf 0 got))"

text \<open>
  The readers that \<open>tag_read\<close> dispatches to work on the game's global state (\<open>you\<close>,
  \<open>env\<close>, \<open>menv\<close>, \<open>mitm\<close>, \<open>ghosts\<close>), whose types are declared outside tags.cc. They
  are parameters: each takes the header, the minor version where the source passes it,
  the tag buffer and the game state \<open>'g\<close>, and returns the header and the state.
\<close>

record 'g tag_readers =
  tag_read_you :: "tagHeader \<Rightarrow> byte \<Rightarrow> byte list \<Rightarrow> 'g \<Rightarrow> stop + (tagHeader \<times> 'g)"
  tag_read_you_items :: "tagHeader \<Rightarrow> byte \<Rightarrow> byte list \<Rightarrow> 'g \<Rightarrow> stop + (tagHeader \<times> 'g)"
  tag_read_you_dungeon :: "tagHeader \<Rightarrow> byte list \<Rightarrow> 'g \<Rightarrow> stop + (tagHeader \<times> 'g)"
  tag_read_level :: "tagHeader \<Rightarrow> byte \<Rightarrow> byte list \<Rightarrow> 'g \<Rightarrow> stop + (tagHeader \<times> 'g)"
  tag_read_level_items :: "tagHeader \<Rightarrow> byte \<Rightarrow> byte list \<Rightarrow> 'g \<Rightarrow> stop + (tagHeader \<times> 'g)"
  tag_read_level_monsters :: "tagHeader \<Rightarrow> byte \<Rightarrow> byte list \<Rightarrow> 'g \<Rightarrow> stop + (tagHeader \<times> 'g)"
  tag_read_level_attitude :: "tagHeader \<Rightarrow> byte list \<Rightarrow> 'g \<Rightarrow> stop + (tagHeader \<times> 'g)"
  tag_read_ghost :: "tagHeader \<Rightarrow> byte \<Rightarrow> byte list \<Rightarrow> 'g \<Rightarrow> stop + (tagHeader \<times> 'g)"
  tag_read_lost_monsters :: "tagHeader \<Rightarrow> int \<Rightarrow> byte list \<Rightarrow> 'g \<Rightarrow> stop + (tagHeader \<times> 'g)"
  tag_read_lost_items :: "tagHeader \<Rightarrow> int \<Rightarrow> byte list \<Rightarrow> 'g \<Rightarrow> stop + (tagHeader \<times> 'g)"

text \<open>The \<open>switch\<close> of \<open>tag_read\<close>: \<open>None\<close> is its \<open>default\<close> branch.\<close>

definition tag_read_switch ::
  "'g tag_readers \<Rightarrow> int \<Rightarrow> tagHeader \<Rightarrow> byte \<Rightarrow> byte list \<Rightarrow> 'g
     \<Rightarrow> (stop + (tagHeader \<times> 'g)) option" where
  "tag_read_switch rd t th minorVersion buf game =
     (if t = TAG_YOU then Some (tag_read_you rd th minorVersion buf game)
      else if t = TAG_YOU_ITEMS then Some (tag_read_you_items rd th minorVersion buf game)
      else if t = TAG_YOU_DUNGEON then Some (tag_read_you_dungeon rd th buf game)
      else if t = TAG_LEVEL then Some (tag_read_level rd th minorVersion buf game)
      else if t = TAG_LEVEL_ITEMS then Some (tag_read_level_items rd th minorVersion buf game)
      else if t = TAG_LEVEL_MONSTERS
      then Some (tag_read_level_monsters rd th minorVersion buf game)
      else if t = TAG_LEVEL_ATTITUDE then Some (tag_read_level_attitude rd th buf game)
      else if t = TAG_GHOST then Some (tag_read_ghost rd th minorVersion buf game)
      else if t = TAG_LOST_MONSTERS
      then Some (case tag_read_lost_monsters rd th (sint minorVersion) buf game of
                   Inl e \<Rightarrow> Inl e
                 | Inr (th1, game1) \<Rightarrow> tag_read_lost_items rd th1 (sint minorVersion) buf game1)
      else None)"

text \<open>
  \<open>tag_read(fp, minorVersion)\<close>: the result is the returned \<open>int\<close>, the stream, the tag
  buffer and the game state afterwards. \<open>hdr.offset\<close> is a \<open>long\<close> and takes the \<open>long\<close> that
  \<open>unmarshallLong\<close> returns as it is.
\<close>

definition tag_read ::
  "'g tag_readers \<Rightarrow> stdio_file \<Rightarrow> byte \<Rightarrow> byte list \<Rightarrow> 'g
     \<Rightarrow> stop + (int \<times> stdio_file \<times> byte list \<times> 'g)" where
  "tag_read rd fp minorVersion buf game =
     (let tagHdrSize = 6;
          th = new_tagHeader\<lparr>offset := 0\<rparr>
      in case read_tagBuffer fp buf tagHdrSize of
           Inl e \<Rightarrow> Inl e
         | Inr (n, fp1, buf1) \<Rightarrow>
             if n \<noteq> tagHdrSize then Inr (0, fp1, buf1, game)
             else (case unmarshallShort th buf1 of
                     Inl e \<Rightarrow> Inl e
                   | Inr (hdr_tagID, th1) \<Rightarrow>
                       (case unmarshallLong th1 buf1 of
                          Inl e \<Rightarrow> Inl e
                        | Inr (hdr_off, th2) \<Rightarrow>
                            (let hdr = new_tagHeader\<lparr>tagID := hdr_tagID, offset := sint hdr_off\<rparr>
                             in if sint (tagID hdr) \<le> 0 \<or> offset hdr \<le> 0
                                then Inr (0, fp1, buf1, game)
                                else (let th3 = th2\<lparr>offset := 0\<rparr>
                                      in case read_tagBuffer fp1 buf1 (offset hdr) of
                                           Inl e \<Rightarrow> Inl e
                                         | Inr (n2, fp2, buf2) \<Rightarrow>
                                             if n2 \<noteq> offset hdr then Inr (0, fp2, buf2, game)
                                             else (case tag_read_switch rd (sint (tagID hdr)) th3
                                                          minorVersion buf2 game of
                                                     None \<Rightarrow> Inr (0, fp2, buf2, game)
                                                   | Some (Inl e) \<Rightarrow> Inl e
                                                   | Some (Inr (th4, game1)) \<Rightarrow>
                                                       Inr (sint (tagID hdr), fp2, buf2, game1)))))))"

subsection \<open>Monsters and the missing attitude tag\<close>

text \<open>
  Modelled from the spec: the fields of \<open>class monsters\<close> (externs.h, absent) that
  \<open>tag_missing_level_attitude\<close> uses. \<open>behaviour\<close> holds the legacy code read from the
  file and then the new \<open>beh_type\<close> value, both as \<open>int\<close>; \<open>enchantments\<close> is the set of
  keys of the enchantment map, and \<open>has_ench\<close> looks a key up.
\<close>

datatype mon_attitude_type = ATT_HOSTILE | ATT_FRIENDLY | ATT_NEUTRAL

record monsters =
  type_m :: int
  flags :: "32 word"
  behaviour :: int
  attitude :: mon_attitude_type
  foe :: int
  foe_memory :: int
  enchantments :: "int set"

definition has_ench :: "monsters \<Rightarrow> int \<Rightarrow> bool" where
  "has_ench m e = (e \<in> enchantments m)"

text \<open>
  Modelled from the spec: the macro \<open>testbits(flags, test)\<close> (absent): the monster
  "carries the flag".
\<close>

definition testbits :: "32 word \<Rightarrow> 32 word \<Rightarrow> bool" where
  "testbits fl test = (fl AND test = test)"

text \<open>
  The enumerators and constants of the absent headers that the routine names. Their
  values are parameters.
\<close>

record monster_consts =
  MHITNOT :: int
  MF_CREATED_FRIENDLY :: "32 word"
  ENCH_CHARM :: int
  BEH_SLEEP :: int
  BEH_WANDER :: int
  BEH_SEEK :: int
  BEH_FLEE :: int

text \<open>
  One round of the loop over \<open>menv\<close>, for the slot \<open>i\<close>. \<open>new_beh\<close> is declared before the
  loop, so it is part of the loop's state next to the monster table.
\<close>

definition attitude_slot ::
  "monster_consts \<Rightarrow> nat \<Rightarrow> int \<times> monsters list \<Rightarrow> int \<times> monsters list" where
  "attitude_slot k i s =
     (case s of (new_beh, menv) \<Rightarrow>
        (let m = menv ! i
         in if type_m m < 0 then (new_beh, menv)
            else (let isFriendly = testbits (flags m) (MF_CREATED_FRIENDLY k);
                      m1 = m\<lparr>foe := MHITNOT k\<rparr>;
                      b = behaviour m1;
                      new_beh1 = (if b = 0 then BEH_SLEEP k
                                  else if b = 3 \<or> b = 10 then BEH_FLEE k
                                  else if b = 1 \<or> b = 6 then BEH_SEEK k
                                  else new_beh);
                      isFriendly1 = (if b = 7 \<and> \<not> has_ench m1 (ENCH_CHARM k) then True
                                     else isFriendly);
                      m2 = m1\<lparr>attitude := (if isFriendly1 then ATT_FRIENDLY else ATT_HOSTILE)\<rparr>;
                      m3 = m2\<lparr>behaviour := new_beh1\<rparr>;
                      m4 = m3\<lparr>foe_memory := 0\<rparr>
                  in (new_beh1, menv[i := m4]))))"

text \<open>\<open>menv\<close> has \<open>MAX_MONSTERS\<close> slots: the length of the list.\<close>

definition tag_missing_level_attitude :: "monster_consts \<Rightarrow> monsters list \<Rightarrow> monsters list" where
  "tag_missing_level_attitude k menv =
     snd (fold (attitude_slot k) [0..<length menv] (BEH_WANDER k, menv))"

definition tag_missing ::
  "monster_consts \<Rightarrow> int \<Rightarrow> byte \<Rightarrow> monsters list \<Rightarrow> stop + monsters list" where
  "tag_missing k tag minorVersion menv =
     (if tag = TAG_LEVEL_ATTITUDE then Inr (tag_missing_level_attitude k menv)
      else Inl (Process_end ''Tag %d is missing;  file is likely corrupt.'' (- 1)))"

subsection \<open>Ghosts\<close>

text \<open>
  Modelled from the spec: \<open>ghost_demon\<close> (ghost.h, absent): "a fixed-size named-value
  array (name string + homogeneous stat array of bounded length)". \<open>ghost_values\<close>, the
  member \<open>values\<close>, has
  \<open>NUM_GHOST_VALUES\<close> slots of type \<open>short\<close>; the constant and the default-constructed
  ghost are parameters of \<open>unmarshallGhost\<close>.
\<close>

record ghost_demon =
  name :: "byte list"
  ghost_values :: "16 word list"

text \<open>The loop \<open>for (int i = 0; i < count_c; i++) ghost.values[i] = unmarshallShort(th)\<close>.\<close>

function ghost_values_loop ::
  "int \<Rightarrow> int \<Rightarrow> byte list \<Rightarrow> tagHeader \<Rightarrow> ghost_demon \<Rightarrow> stop + (ghost_demon \<times> tagHeader)" where
  "ghost_values_loop i count_c buf th ghost =
     (if i < count_c
      then case unmarshallShort th buf of
             Inl e \<Rightarrow> Inl e
           | Inr (v, th1) \<Rightarrow>
               if 0 \<le> i \<and> nat i < length (ghost_values ghost)
               then ghost_values_loop (i + 1) count_c buf th1
                      (ghost\<lparr>ghost_values := (ghost_values ghost)[nat i := v]\<rparr>)
               else Inl Values_overrun
      else Inr (ghost, th))"
  by pat_completeness auto
termination
  by (relation "measure (\<lambda>(i, count_c, buf, th, ghost). nat (count_c - i))") auto

definition unmarshallGhost ::
  "int \<Rightarrow> ghost_demon \<Rightarrow> tagHeader \<Rightarrow> byte list \<Rightarrow> stop + (ghost_demon \<times> tagHeader)" where
  "unmarshallGhost NUM_GHOST_VALUES ghost0 th buf =
     (case unmarshallString th 20 buf of
        Inl e \<Rightarrow> Inl e
      | Inr (nm, th1) \<Rightarrow>
          (let ghost = ghost0\<lparr>name := nm\<rparr>
           in case unmarshallByte th1 buf of
                Inl e \<Rightarrow> Inl e
              | Inr (c, th2) \<Rightarrow>
                  (let count_c = sint c;
                       count_c = (if count_c > NUM_GHOST_VALUES then NUM_GHOST_VALUES else count_c)
                   in ghost_values_loop 0 count_c buf th2 ghost)))"

subsection \<open>Specification vocabulary\<close>

text \<open>
  Big-endian (network order) byte sequences, most significant byte first, as the
  specification words them; the theorems compare the code with these.
\<close>

definition be16_bytes :: "16 word \<Rightarrow> byte list" where
  "be16_bytes w = [ucast (drop_bit 8 w), ucast w]"

definition be32_bytes :: "32 word \<Rightarrow> byte list" where
  "be32_bytes w = [ucast (drop_bit 24 w), ucast (drop_bit 16 w), ucast (drop_bit 8 w), ucast w]"

definition be16_value :: "byte \<Rightarrow> byte \<Rightarrow> 16 word" where
  "be16_value a b = push_bit 8 (ucast a) OR ucast b"

definition be32_value :: "byte \<Rightarrow> byte \<Rightarrow> byte \<Rightarrow> byte \<Rightarrow> 32 word" where
  "be32_value a b c d =
     push_bit 24 (ucast a) OR push_bit 16 (ucast b) OR push_bit 8 (ucast c) OR ucast d"

text \<open>
  The cells of a grid in the scan order of the codec: \<open>y\<close> in the outer loop, \<open>x\<close> in the
  inner one.
\<close>

definition scan_cells :: "(nat \<Rightarrow> nat \<Rightarrow> 'c) \<Rightarrow> nat \<Rightarrow> nat \<Rightarrow> 'c list" where
  "scan_cells g width height = concat (map (\<lambda>y. map (\<lambda>x. g x y) [0..<width]) [0..<height])"

text \<open>
  The (run length, value) pairs that the encoder emits for the cells still to come, from
  the state \<open>last\<close>, \<open>nlast\<close> of its loop, the final flush included.
\<close>

primrec rle_pairs :: "int list \<Rightarrow> int \<Rightarrow> int \<Rightarrow> (int \<times> int) list" where
  "rle_pairs [] last0 nlast = [(nlast, last0)]"
| "rle_pairs (c # cs) last0 nlast =
     (if (if nlast = 0 then c else last0) = c \<and> nlast < 255
      then rle_pairs cs (if nlast = 0 then c else last0) (nlast + 1)
      else (nlast, if nlast = 0 then c else last0) # rle_pairs cs c 1)"

text \<open>A pair on disk: the run-length byte, then the value byte.\<close>

definition pair_bytes :: "(int \<times> int) list \<Rightarrow> byte list" where
  "pair_bytes ps = concat (map (\<lambda>(n, v). [word_of_int n, word_of_int v]) ps)"

text \<open>The cells that a list of pairs stands for.\<close>

definition expand_pairs :: "(int \<times> 'v) list \<Rightarrow> 'v list" where
  "expand_pairs ps = concat (map (\<lambda>(n, v). replicate (nat n) v) ps)"

text \<open>The read or write position of a header: in the tag buffer or in its stream.\<close>

definition cursor :: "tagHeader \<Rightarrow> int" where
  "cursor th = (case file_p th of Some f \<Rightarrow> int (fpos f) | None \<Rightarrow> offset th)"

text \<open>Readers that leave the game state alone, for concrete runs of \<open>tag_read\<close>.\<close>

definition keep_state :: "tagHeader \<Rightarrow> 'v \<Rightarrow> byte list \<Rightarrow> 'g \<Rightarrow> stop + (tagHeader \<times> 'g)" where
  "keep_state th v buf game = Inr (th, game)"

definition keep_state0 :: "tagHeader \<Rightarrow> byte list \<Rightarrow> 'g \<Rightarrow> stop + (tagHeader \<times> 'g)" where
  "keep_state0 th buf game = Inr (th, game)"

definition idle_readers :: "'g tag_readers" where
  "idle_readers =
     \<lparr>tag_read_you = keep_state, tag_read_you_items = keep_state,
      tag_read_you_dungeon = keep_state0, tag_read_level = keep_state,
      tag_read_level_items = keep_state, tag_read_level_monsters = keep_state,
      tag_read_level_attitude = keep_state0, tag_read_ghost = keep_state,
      tag_read_lost_monsters = keep_state, tag_read_lost_items = keep_state\<rparr>"

section \<open>Properties\<close>

subsection \<open>The tag buffer\<close>

lemma length_memcpy_to:
  "i + length bs \<le> length buf \<Longrightarrow> length (memcpy_to buf i bs) = length buf"
  by (simp add: memcpy_to_def)

lemma memcpy_to_Nil: "i \<le> length buf \<Longrightarrow> memcpy_to buf i [] = buf"
  by (simp add: memcpy_to_def)

lemma memcpy_to_update:
  "i < length buf \<Longrightarrow> buf[i := c] = memcpy_to buf i [c]"
  by (simp add: memcpy_to_def upd_conv_take_nth_drop)

lemma memcpy_to_append:
  "i + length as + length bs \<le> length buf \<Longrightarrow>
   memcpy_to (memcpy_to buf i as) (i + length as) bs = memcpy_to buf i (as @ bs)"
  by (simp add: memcpy_to_def add.commute add.left_commute)

lemma memcpy_to_append_at:
  "k = length as \<Longrightarrow> i + k + length bs \<le> length buf \<Longrightarrow>
   memcpy_to (memcpy_to buf i as) (i + k) bs = memcpy_to buf i (as @ bs)"
  by (simp add: memcpy_to_append)

lemma memcpy_to_snoc:
  "k = i + length as \<Longrightarrow> k < length buf \<Longrightarrow>
   memcpy_to (memcpy_to buf i as) k [c] = memcpy_to buf i (as @ [c])"
  by (simp add: memcpy_to_append)

lemma nth_memcpy_to:
  "i + length bs \<le> length buf \<Longrightarrow> j < length bs \<Longrightarrow> memcpy_to buf i bs ! (i + j) = bs ! j"
  by (simp add: memcpy_to_def nth_append)

lemma nth_memcpy_to_before:
  "i + length bs \<le> length buf \<Longrightarrow> j < i \<Longrightarrow> memcpy_to buf i bs ! j = buf ! j"
  by (simp add: memcpy_to_def nth_append)

lemma take_drop_memcpy_to:
  "i + length bs \<le> length buf \<Longrightarrow> take (length bs) (drop i (memcpy_to buf i bs)) = bs"
  by (simp add: memcpy_to_def)

lemma memcpy_to_restore:
  "n \<le> length buf \<Longrightarrow> length bs = n \<Longrightarrow> memcpy_to (memcpy_to buf 0 bs) 0 (take n buf) = buf"
  by (simp add: memcpy_to_def)


subsection \<open>Primitives on a buffer-bound header\<close>

lemma readByte_buf:
  "file_p th = None \<Longrightarrow> 0 \<le> offset th \<Longrightarrow> offset th < int (length buf) \<Longrightarrow>
   readByte th buf = Inr (buf ! nat (offset th), th\<lparr>offset := offset th + 1\<rparr>)"
  by (simp add: readByte_def)

lemma writeByte_buf:
  "file_p th = None \<Longrightarrow> 0 \<le> offset th \<Longrightarrow> offset th < int (length buf) \<Longrightarrow>
   writeByte th ch buf = Inr (th\<lparr>offset := offset th + 1\<rparr>, memcpy_to buf (nat (offset th)) [ch])"
  by (simp add: writeByte_def memcpy_to_update)

lemma mask_consts:
  "(0xFF :: 32 word) = mask 8"
  "(0xFF00 :: 32 word) = push_bit 8 (mask 8)"
  "(0xFF :: 64 word) = mask 8"
  "(0xFF00 :: 64 word) = push_bit 8 (mask 8)"
  "(0xFF0000 :: 64 word) = push_bit 16 (mask 8)"
  "(0xFF000000 :: 64 word) = push_bit 24 (mask 8)"
  by (simp_all add: mask_eq_exp_minus_1)

lemma byte_bit_bound: "bit (c :: byte) n \<Longrightarrow> n < 8"
  by (auto dest: bit_imp_le_length)

lemma short_hi: "(ucast (drop_bit 8 ((scast (d :: 16 word) :: 32 word) AND 0xFF00)) :: byte) = ucast (drop_bit 8 d)"
  unfolding mask_consts by (rule bit_word_eqI) (auto simp: bit_simps)

lemma short_lo: "(ucast ((scast (d :: 16 word) :: 32 word) AND 0xFF) :: byte) = ucast d"
  unfolding mask_consts by (rule bit_word_eqI) (auto simp: bit_simps)

lemma short_join:
  "(ucast (push_bit 8 (scast (ucast (c1::byte) :: 16 word) :: 32 word) OR (scast (ucast (c2::byte) :: 16 word) AND 0xFF)) :: 16 word)
   = be16_value c1 c2"
  unfolding mask_consts be16_value_def by (rule bit_word_eqI) (auto simp: bit_simps dest: byte_bit_bound)

lemma long_b1:
  "(ucast (drop_bit 24 ((d :: 64 word) AND 0xFF000000)) :: byte) = ucast (drop_bit 24 (ucast d :: 32 word))"
  unfolding mask_consts by (rule bit_word_eqI) (auto simp: bit_simps)
lemma long_b2:
  "(ucast (drop_bit 16 ((d :: 64 word) AND 0xFF0000)) :: byte) = ucast (drop_bit 16 (ucast d :: 32 word))"
  unfolding mask_consts by (rule bit_word_eqI) (auto simp: bit_simps)
lemma long_b3:
  "(ucast (drop_bit 8 ((d :: 64 word) AND 0xFF00)) :: byte) = ucast (drop_bit 8 (ucast d :: 32 word))"
  unfolding mask_consts by (rule bit_word_eqI) (auto simp: bit_simps)
lemma long_b4: "(ucast ((d :: 64 word) AND 0xFF) :: byte) = ucast (ucast d :: 32 word)"
  unfolding mask_consts by (rule bit_word_eqI) (auto simp: bit_simps)

lemma long_join:
  "(push_bit 24 (ucast (c1::byte)) OR push_bit 16 (ucast (c2::byte) AND 0xFF))
     OR (push_bit 8 (ucast (c3::byte) AND 0xFF) OR (ucast (c4::byte) AND 0xFF))
   = (ucast (be32_value c1 c2 c3 c4) :: 64 word)"
  unfolding mask_consts be32_value_def by (rule bit_word_eqI) (auto simp: bit_simps dest: byte_bit_bound)

lemma uint_long_of_be32: "uint (ucast (w :: 32 word) :: 64 word) = uint w"
proof -
  have "0 \<le> uint w" "uint w < 4294967296"
    using uint_bounded[of w] by simp_all
  then show ?thesis
    by (simp add: unsigned_ucast_eq take_bit_eq_mod)
qed

lemma sint_long_of_be32: "sint (ucast (w :: 32 word) :: 64 word) = uint w"
proof -
  have lo: "- (2 ^ 63) \<le> uint w"
    by (rule order_trans[of _ 0]) simp_all
  have hi: "uint w < 2 ^ 63"
    using uint_bounded[of w] by simp
  have "sint (ucast w :: 64 word) = signed_take_bit 63 (uint (ucast w :: 64 word))"
    by (simp add: sint_uint)
  also have "\<dots> = signed_take_bit 63 (uint w)"
    by (simp only: uint_long_of_be32)
  also have "\<dots> = uint w"
    using lo hi by (rule signed_take_bit_int_eq_self)
  finally show ?thesis .
qed

lemma ucast_long_of_int: "(ucast (word_of_int v :: 64 word) :: 32 word) = word_of_int v"
  by (rule bit_word_eqI) (auto simp: bit_simps)

lemma be16_value_bytes: "be16_value (ucast (drop_bit 8 w)) (ucast w) = w"
  unfolding be16_value_def by (rule bit_word_eqI) (auto simp: bit_simps)

lemma be32_value_bytes:
  "be32_value (ucast (drop_bit 24 w)) (ucast (drop_bit 16 w)) (ucast (drop_bit 8 w)) (ucast w) = w"
  unfolding be32_value_def
proof (rule bit_word_eqI, goal_cases)
  case (1 n)
  then consider "n < 8" | "8 \<le> n" "n < 16" | "16 \<le> n" "n < 24" | "24 \<le> n" "n < 32"
    by force
  then show ?case
    by cases (auto simp: bit_simps)
qed

lemma marshallShort_buf:
  assumes "file_p th = None" "0 \<le> offset th" "offset th + 2 \<le> int (length buf)"
  shows "marshallShort th w buf =
         Inr (th\<lparr>offset := offset th + 2\<rparr>, memcpy_to buf (nat (offset th)) (be16_bytes w))"
  using assms unfolding marshallShort_def Let_def short_hi short_lo
  by (simp add: writeByte_buf length_memcpy_to be16_bytes_def nat_add_distrib memcpy_to_snoc)

lemma unmarshallShort_buf:
  assumes "file_p th = None" "0 \<le> offset th" "offset th + 2 \<le> int (length buf)"
  shows "unmarshallShort th buf =
         Inr (be16_value (buf ! nat (offset th)) (buf ! (nat (offset th) + 1)),
              th\<lparr>offset := offset th + 2\<rparr>)"
proof -
  have "nat (offset th + 1) = nat (offset th) + 1" using assms by simp
  then show ?thesis
    using assms unfolding unmarshallShort_def Let_def short_join
    by (simp add: readByte_buf)
qed

lemma marshallLong_buf:
  assumes "file_p th = None" "0 \<le> offset th" "offset th + 4 \<le> int (length buf)"
  shows "marshallLong th w buf =
         Inr (th\<lparr>offset := offset th + 4\<rparr>, memcpy_to buf (nat (offset th)) (be32_bytes (ucast w)))"
  using assms unfolding marshallLong_def Let_def long_b1 long_b2 long_b3 long_b4
  by (simp add: writeByte_buf length_memcpy_to be32_bytes_def nat_add_distrib memcpy_to_snoc)

lemma unmarshallLong_buf:
  assumes "file_p th = None" "0 \<le> offset th" "offset th + 4 \<le> int (length buf)"
  shows "unmarshallLong th buf =
         Inr (ucast (be32_value (buf ! nat (offset th)) (buf ! (nat (offset th) + 1))
                       (buf ! (nat (offset th) + 2)) (buf ! (nat (offset th) + 3))),
              th\<lparr>offset := offset th + 4\<rparr>)"
proof -
  have n: "nat (offset th + 1) = nat (offset th) + 1" "nat (offset th + 2) = nat (offset th) + 2"
    "nat (offset th + 3) = nat (offset th) + 3"
    using assms by simp_all
  show ?thesis
    using assms unfolding unmarshallLong_def Let_def long_join
    by (simp add: readByte_buf nat_add_distrib numeral_eq_Suc)
qed

lemma sint16_of_int: "sint (word_of_int v :: 16 word) = (v + 32768) mod 65536 - 32768"
  by (simp add: signed_of_int signed_take_bit_eq_take_bit_shift take_bit_eq_mod)

lemma sint32_of_int: "sint (word_of_int v :: 32 word) = (v + 2147483648) mod 4294967296 - 2147483648"
  by (simp add: signed_of_int signed_take_bit_eq_take_bit_shift take_bit_eq_mod)

lemma sint32_of_nat: "sint (word_of_nat n :: 32 word) = (int n + 2147483648) mod 4294967296 - 2147483648"
  using sint32_of_int[of "int n"] by simp

lemma sint_read_count: "n < 2147483648 \<Longrightarrow> sint (word_of_nat n :: 32 word) = int n"
  by (simp add: sint32_of_nat)


lemma uint_pos_sint:
  assumes "0 < sint (w :: 32 word)"
  shows "uint w = sint w"
proof -
  have b: "0 \<le> uint w" "uint w < 4294967296"
    using uint_bounded[of w] by simp_all
  have s: "sint w = (uint w + 2147483648) mod 4294967296 - 2147483648"
    by (simp add: sint_uint signed_take_bit_eq_take_bit_shift take_bit_eq_mod)
  show ?thesis
  proof (cases "uint w < 2147483648")
    case True
    then have "(uint w + 2147483648) mod 4294967296 = uint w + 2147483648"
      by (intro mod_pos_pos_trivial) simp_all
    with s show ?thesis by simp
  next
    case False
    have "(uint w + 2147483648) mod 4294967296 = (uint w + 2147483648 - 4294967296) mod 4294967296"
      by (simp only: minus_mod_self2)
    also have "\<dots> = uint w + 2147483648 - 4294967296"
      using False b by (intro mod_pos_pos_trivial) linarith+
    finally have "sint w = uint w - 4294967296"
      using s by simp
    with b assms show ?thesis by linarith
  qed
qed

lemma uint_byte_of_drop16:
  "n + 8 \<le> 16 \<Longrightarrow> uint (ucast (drop_bit n (word_of_int v :: 16 word)) :: byte) = take_bit 8 (drop_bit n v)"
  by (simp add: unsigned_ucast_eq unsigned_drop_bit_eq uint_word_of_int_eq drop_bit_take_bit min_absorb1 take_bit_take_bit)

lemma uint_byte_of_drop32:
  "n + 8 \<le> 32 \<Longrightarrow> uint (ucast (drop_bit n (word_of_int v :: 32 word)) :: byte) = take_bit 8 (drop_bit n v)"
  by (simp add: unsigned_ucast_eq unsigned_drop_bit_eq uint_word_of_int_eq drop_bit_take_bit min_absorb1 take_bit_take_bit)

lemma be16_bytes_int:
  "map uint (be16_bytes (word_of_int v)) = [v div 256 mod 256, v mod 256]"
  using uint_byte_of_drop16[of 8 v] uint_byte_of_drop16[of 0 v]
  by (simp add: be16_bytes_def take_bit_eq_mod drop_bit_eq_div)

lemma be32_bytes_int:
  "map uint (be32_bytes (word_of_int v)) = [v div 16777216 mod 256, v div 65536 mod 256, v div 256 mod 256, v mod 256]"
  using uint_byte_of_drop32[of 24 v] uint_byte_of_drop32[of 16 v] uint_byte_of_drop32[of 8 v] uint_byte_of_drop32[of 0 v]
  by (simp add: be32_bytes_def take_bit_eq_mod drop_bit_eq_div)


lemma length_be_bytes: "length (be16_bytes w) = 2" "length (be32_bytes u) = 4"
  by (simp_all add: be16_bytes_def be32_bytes_def)

lemma take_drop_memcpy_to_len:
  "length bs = k \<Longrightarrow> i + k \<le> length buf \<Longrightarrow> take k (drop i (memcpy_to buf i bs)) = bs"
  by (simp add: memcpy_to_def)

lemma be16_round_trip:
  assumes "file_p th = None" "0 \<le> offset th" "offset th + 2 \<le> int (length buf)"
  shows "unmarshallShort th (memcpy_to buf (nat (offset th)) (be16_bytes w)) =
         Inr (w, th\<lparr>offset := offset th + 2\<rparr>)"
proof -
  let ?buf2 = "memcpy_to buf (nat (offset th)) (be16_bytes w)"
  have len: "length ?buf2 = length buf"
    using assms by (simp add: length_memcpy_to length_be_bytes)
  have "?buf2 ! (nat (offset th) + j) = be16_bytes w ! j" if "j < 2" for j
    using assms that by (intro nth_memcpy_to) (simp_all add: length_be_bytes)
  from this[of 0] this[of 1]
  have "be16_value (?buf2 ! nat (offset th)) (?buf2 ! (nat (offset th) + 1)) = w"
    by (simp add: be16_bytes_def be16_value_bytes)
  then show ?thesis
    using assms len by (simp add: unmarshallShort_buf)
qed

lemma be32_round_trip:
  assumes "file_p th = None" "0 \<le> offset th" "offset th + 4 \<le> int (length buf)"
  shows "unmarshallLong th (memcpy_to buf (nat (offset th)) (be32_bytes w)) =
         Inr (ucast w, th\<lparr>offset := offset th + 4\<rparr>)"
proof -
  let ?buf2 = "memcpy_to buf (nat (offset th)) (be32_bytes w)"
  have len: "length ?buf2 = length buf"
    using assms by (simp add: length_memcpy_to be32_bytes_def)
  have l4: "length (be32_bytes w) = 4" by (simp add: be32_bytes_def)
  have "?buf2 ! (nat (offset th) + j) = be32_bytes w ! j" if "j < 4" for j
    using assms that l4 by (intro nth_memcpy_to) simp_all
  from this[of 0] this[of 1] this[of 2] this[of 3]
  have "be32_value (?buf2 ! nat (offset th)) (?buf2 ! (nat (offset th) + 1))
          (?buf2 ! (nat (offset th) + 2)) (?buf2 ! (nat (offset th) + 3)) = w"
    by (simp add: be32_bytes_def be32_value_bytes)
  then show ?thesis
    using assms len by (simp add: unmarshallLong_buf)
qed

text \<open>
  A header bound to the tag buffer with room for two bytes at its cursor.
  \<open>marshallShort(th, v)\<close> for an \<open>int\<close> \<open>v\<close> (converted to \<open>short\<close> at the call) writes the
  two bytes \<open>v div 256 mod 256\<close> and \<open>v mod 256\<close>, most significant first; \<open>unmarshallShort\<close>
  from the same cursor reads back \<open>v\<close> reduced modulo \<open>2 ^ 16\<close> into the signed range, which
  is \<open>v\<close> itself when \<open>v\<close> is in the range of \<open>short\<close>. The byte order comes from shifts and
  masks, not from the host's memory layout.
\<close>

lemma short_round_trip:
  assumes "file_p th = None" "0 \<le> offset th" "offset th + 2 \<le> int (length buf)"
  shows "\<exists>buf2 w. marshallShort th (word_of_int v) buf = Inr (th\<lparr>offset := offset th + 2\<rparr>, buf2)
            \<and> map uint (take 2 (drop (nat (offset th)) buf2)) = [v div 256 mod 256, v mod 256]
            \<and> unmarshallShort th buf2 = Inr (w, th\<lparr>offset := offset th + 2\<rparr>)
            \<and> sint w = (v + 32768) mod 65536 - 32768
            \<and> (- 32768 \<le> v \<and> v < 32768 \<longrightarrow> sint w = v)"
proof -
  let ?n = "nat (offset th)"
  let ?b2 = "memcpy_to buf ?n (be16_bytes (word_of_int v))"
  have t2: "take 2 (drop ?n ?b2) = be16_bytes (word_of_int v)"
    using assms by (intro take_drop_memcpy_to_len) (simp_all add: length_be_bytes)
  have s2: "- 32768 \<le> v \<and> v < 32768 \<longrightarrow> (v + 32768) mod 65536 - 32768 = v" by simp
  show ?thesis
    apply (rule exI[of _ ?b2], rule exI[of _ "word_of_int v"])
    using assms s2
    by (simp only: t2 be16_bytes_int sint16_of_int marshallShort_buf be16_round_trip simp_thms)
qed

text \<open>
  With room for four bytes, \<open>marshallLong(th, u)\<close> writes the four low bytes of \<open>u\<close>, most
  significant first, and \<open>unmarshallLong\<close> from the same cursor reads back \<open>u mod 2 ^ 32\<close>, a
  value from 0 to \<open>2 ^ 32 - 1\<close>: it is \<open>u\<close> itself exactly when \<open>0 \<le> u < 2 ^ 32\<close>.
\<close>

lemma long_round_trip_mod:
  assumes "file_p th = None" "0 \<le> offset th" "offset th + 4 \<le> int (length buf)"
  shows "\<exists>buf4 w. marshallLong th (word_of_int u) buf = Inr (th\<lparr>offset := offset th + 4\<rparr>, buf4)
            \<and> map uint (take 4 (drop (nat (offset th)) buf4)) =
                [u div 16777216 mod 256, u div 65536 mod 256, u div 256 mod 256, u mod 256]
            \<and> unmarshallLong th buf4 = Inr (w, th\<lparr>offset := offset th + 4\<rparr>)
            \<and> sint w = u mod 4294967296"
proof -
  let ?n = "nat (offset th)"
  let ?b4 = "memcpy_to buf ?n (be32_bytes (word_of_int u))"
  have t4: "take 4 (drop ?n ?b4) = be32_bytes (word_of_int u)"
    using assms by (intro take_drop_memcpy_to_len) (simp_all add: length_be_bytes)
  have m: "marshallLong th (word_of_int u) buf = Inr (th\<lparr>offset := offset th + 4\<rparr>, ?b4)"
    using marshallLong_buf[OF assms, of "word_of_int u"] by (simp only: ucast_long_of_int)
  have s: "sint (ucast (word_of_int u :: 32 word) :: 64 word) = u mod 4294967296"
    by (simp add: sint_long_of_be32 uint_word_of_int_eq take_bit_eq_mod)
  show ?thesis
    apply (rule exI[of _ ?b4], rule exI[of _ "ucast (word_of_int u :: 32 word)"])
    using assms
    by (simp only: m t4 be32_bytes_int be32_round_trip s simp_thms)
qed

text \<open>
  C4. Two-byte values round-trip (\<open>short_round_trip\<close>) and both writers put the most
  significant byte first. Four-byte values do not round-trip when they are negative:
  \<open>marshallLong(th, -2)\<close> writes the bytes FF FF FF FE and \<open>unmarshallLong\<close> reads them back as
  4294967294, since nothing carries bit 31 into the upper half of the 64-bit \<open>long\<close>.
\<close>

theorem unmarshallLong_loses_sign:
  "marshallLong new_tagHeader (word_of_int (- 2)) [0, 0, 0, 0] =
     Inr (new_tagHeader\<lparr>offset := 4\<rparr>, [255, 255, 255, 254])
   \<and> unmarshallLong new_tagHeader [255, 255, 255, 254] =
     Inr (word_of_int 4294967294, new_tagHeader\<lparr>offset := 4\<rparr>)
   \<and> sint (word_of_int 4294967294 :: 64 word) = 4294967294
   \<and> sint (word_of_int (- 2) :: 64 word) = - 2"
  by (simp add: marshallLong_def unmarshallLong_def writeByte_def readByte_def new_tagHeader_def)

subsection \<open>Writing and reading tags\<close>

lemma fwrite_append: "fwrite (as @ bs) f = fwrite bs (fwrite as f)"
  by (simp add: fwrite_def)

lemma memcpy_to_append_eq:
  "j = i + length as \<Longrightarrow> i + length as + length bs \<le> length buf \<Longrightarrow>
   memcpy_to (memcpy_to buf i as) j bs = memcpy_to buf i (as @ bs)"
  by (simp add: memcpy_to_append)

lemma write_tagBuffer_ok:
  "0 \<le> n \<Longrightarrow> n \<le> int (length buf) \<Longrightarrow>
   write_tagBuffer f buf n = Inr (fwrite (take (nat n) buf) f)"
  by (simp add: write_tagBuffer_def write2_def)

text \<open>
  C3. \<open>tag_write\<close> on a record with offset 0 leaves the save file as it is. On a record
  bound to the tag buffer with a positive offset inside the buffer (which holds at least the
  6 bytes that the header splice uses) and a tag other than \<open>TAG_VERSION\<close>, it writes the 2
  bytes of the tag ID and the 4 bytes of the offset, both big-endian, and then the first
  \<open>offset\<close> bytes of the buffer as they were before the call; the buffer and the header
  are the same afterwards. For \<open>TAG_VERSION\<close> it writes the payload bytes only.
\<close>

theorem tag_write_framing:
  "(offset th = 0 \<longrightarrow> tag_write th buf saveFile = Inr (th, buf, saveFile))
   \<and> (file_p th = None \<and> 0 < offset th \<and> offset th \<le> int (length buf) \<and> 6 \<le> length buf
        \<and> sint (tagID th) \<noteq> TAG_VERSION \<longrightarrow>
      tag_write th buf saveFile =
        Inr (th, buf,
             fwrite (be16_bytes (tagID th) @ be32_bytes (word_of_int (offset th))
                     @ take (nat (offset th)) buf) saveFile))
   \<and> (0 < offset th \<and> offset th \<le> int (length buf) \<and> sint (tagID th) = TAG_VERSION \<longrightarrow>
      tag_write th buf saveFile = Inr (th, buf, fwrite (take (nat (offset th)) buf) saveFile))"
proof (intro conjI impI)
  assume "offset th = 0"
  then show "tag_write th buf saveFile = Inr (th, buf, saveFile)"
    by (simp add: tag_write_def)
next
  assume a: "0 < offset th \<and> offset th \<le> int (length buf) \<and> sint (tagID th) = TAG_VERSION"
  then show "tag_write th buf saveFile = Inr (th, buf, fwrite (take (nat (offset th)) buf) saveFile)"
    by (simp add: tag_write_def write_tagBuffer_ok)
next
  assume a: "file_p th = None \<and> 0 < offset th \<and> offset th \<le> int (length buf) \<and> 6 \<le> length buf
        \<and> sint (tagID th) \<noteq> TAG_VERSION"
  let ?th0 = "th\<lparr>offset := 0\<rparr>"
  let ?hdr = "be16_bytes (tagID th) @ be32_bytes (word_of_int (offset th))"
  let ?buf1 = "memcpy_to buf 0 (be16_bytes (tagID th))"
  let ?buf2 = "memcpy_to buf 0 ?hdr"
  have l1: "length ?buf1 = length buf" using a by (simp add: length_memcpy_to length_be_bytes)
  have m1: "marshallShort ?th0 (tagID th) buf = Inr (th\<lparr>offset := 2\<rparr>, ?buf1)"
    using a marshallShort_buf[of ?th0 buf "tagID th"] by simp
  have c: "memcpy_to ?buf1 2 (be32_bytes (word_of_int (offset th))) = ?buf2"
    using a by (intro memcpy_to_append_eq) (simp_all add: length_be_bytes)
  have m2: "marshallLong (th\<lparr>offset := 2\<rparr>) (word_of_int (offset th)) ?buf1 = Inr (th\<lparr>offset := 6\<rparr>, ?buf2)"
    using a l1 marshallLong_buf[of "th\<lparr>offset := 2\<rparr>" ?buf1 "word_of_int (offset th)"]
    by (simp add: c ucast_long_of_int)
  have l2: "length ?buf2 = length buf" using a by (simp add: length_memcpy_to length_be_bytes)
  have t6: "take 6 ?buf2 = ?hdr"
    using a take_drop_memcpy_to_len[of ?hdr 6 0 buf] by (simp add: length_be_bytes)
  have r: "memcpy_to ?buf2 0 (take 6 buf) = buf"
    using a by (intro memcpy_to_restore) (simp_all add: length_be_bytes)
  show "tag_write th buf saveFile =
        Inr (th, buf,
             fwrite (be16_bytes (tagID th) @ be32_bytes (word_of_int (offset th))
                     @ take (nat (offset th)) buf) saveFile)"
    using a by (simp add: tag_write_def Let_def m1 m2 write_tagBuffer_ok l2 t6 r fwrite_append)
qed


lemma read_tagBuffer_eq:
  "read_tagBuffer fp buf n =
     (let got = take (nat (n mod 4294967296)) (drop (fpos fp) (fdata fp))
      in if length buf < length got then Inl Buffer_overrun
         else Inr (sint (word_of_nat (length got) :: 32 word), fp\<lparr>fpos := fpos fp + length got\<rparr>,
                   memcpy_to buf 0 got))"
  by (simp add: read_tagBuffer_def read2_def fread_def Let_def)

lemma nth_memcpy_to_0:
  "length bs \<le> length buf \<Longrightarrow> j < length bs \<Longrightarrow> memcpy_to buf 0 bs ! j = bs ! j"
  by (simp add: memcpy_to_def nth_append)


text \<open>
  \<open>tag_read\<close> after a full header: the length that the sanity check and \<open>read2\<close> see is the
  unsigned value of the four length bytes.
\<close>

lemma tag_read_header:
  assumes buf: "6 \<le> length buf"
    and av: "drop (fpos fp) (fdata fp) = a # b # c # d # e # f # rest"
  shows "tag_read rd fp minorVersion buf game =
     (let fp1 = fp\<lparr>fpos := fpos fp + 6\<rparr>;
          buf1 = memcpy_to buf 0 [a, b, c, d, e, f];
          t = sint (be16_value a b);
          n = uint (be32_value c d e f)
      in if t \<le> 0 \<or> n \<le> 0 then Inr (0, fp1, buf1, game)
         else case read_tagBuffer fp1 buf1 n of
                Inl x \<Rightarrow> Inl x
              | Inr (n2, fp2, buf2) \<Rightarrow>
                  if n2 \<noteq> n then Inr (0, fp2, buf2, game)
                  else (case tag_read_switch rd t (new_tagHeader\<lparr>offset := 0\<rparr>) minorVersion buf2 game of
                          None \<Rightarrow> Inr (0, fp2, buf2, game)
                        | Some (Inl x) \<Rightarrow> Inl x
                        | Some (Inr (th4, game1)) \<Rightarrow> Inr (t, fp2, buf2, game1)))"
proof -
  let ?buf1 = "memcpy_to buf 0 [a, b, c, d, e, f]"
  let ?th = "new_tagHeader\<lparr>offset := 0\<rparr>"
  have l: "length ?buf1 = length buf" using buf by (simp add: length_memcpy_to)
  have nth: "?buf1 ! 0 = a" "?buf1 ! 1 = b" "?buf1 ! 2 = c" "?buf1 ! 3 = d" "?buf1 ! 4 = e" "?buf1 ! 5 = f"
    using buf by (simp_all add: nth_memcpy_to_0)
  have th: "?th = new_tagHeader" by (simp add: new_tagHeader_def)
  have us: "unmarshallShort new_tagHeader ?buf1 = Inr (be16_value a b, new_tagHeader\<lparr>offset := 2\<rparr>)"
    using buf l nth unmarshallShort_buf[of new_tagHeader ?buf1] by (simp add: new_tagHeader_def)
  have ul: "unmarshallLong (new_tagHeader\<lparr>offset := 2\<rparr>) ?buf1 =
            Inr (ucast (be32_value c d e f), new_tagHeader\<lparr>offset := 6\<rparr>)"
    using buf l nth unmarshallLong_buf[of "new_tagHeader\<lparr>offset := 2\<rparr>" ?buf1]
    by (simp add: new_tagHeader_def)
  have r: "read_tagBuffer fp buf 6 = Inr (6, fp\<lparr>fpos := fpos fp + 6\<rparr>, ?buf1)"
    using buf av by (simp add: read_tagBuffer_eq)
  show ?thesis
    unfolding tag_read_def Let_def th
    by (simp add: r us ul th sint_long_of_be32 cong: sum.case_cong if_cong option.case_cong)
qed



lemma read_payload_full:
  assumes "0 < n" "n < 2147483648" "n \<le> int (length rest)" "n \<le> int (length buf1)"
    and "drop (fpos fp1) (fdata fp1) = rest"
  shows "read_tagBuffer fp1 buf1 n =
         Inr (n, fp1\<lparr>fpos := fpos fp1 + nat n\<rparr>, memcpy_to buf1 0 (take (nat n) rest))"
proof -
  have m: "n mod 4294967296 = n"
    using assms(1,2) by (intro mod_pos_pos_trivial) linarith+
  have l: "length (take (nat n) rest) = nat n" using assms by simp
  have c: "sint (word_of_nat (nat n) :: 32 word) = n"
    using assms(1,2) sint_read_count[of "nat n"] by simp
  show ?thesis
    unfolding read_tagBuffer_eq Let_def m
    using assms(4,5) by (simp add: l c min_absorb2 del: length_take)
qed

lemma drop_header:
  assumes "drop n xs = a # b # c # d # e # f # rest"
  shows "drop (n + 6) xs = rest"
proof -
  have "drop (n + 6) xs = drop 6 (drop n xs)" by (simp add: add.commute)
  with assms show ?thesis by simp
qed

text \<open>
  Length bytes with the top bit set pass the sanity check. With the length bytes
  FF FF FF FF, \<open>read2\<close> asks for 4294967295 bytes: two bytes that are left go into the tag
  buffer before \<open>tag_read\<close> returns 0, and twenty bytes that are left overrun a buffer of 8.
\<close>

lemma tag_read_top_bit_length:
  "tag_read idle_readers \<lparr>fdata = [0, 4, 255, 255, 255, 255, 7, 8], fpos = 0\<rparr> 0 [0, 0, 0, 0, 0, 0, 0, 0] () =
     Inr (0, \<lparr>fdata = [0, 4, 255, 255, 255, 255, 7, 8], fpos = 8\<rparr>, [7, 8, 255, 255, 255, 255, 0, 0], ())"
  "tag_read idle_readers \<lparr>fdata = [0, 4, 255, 255, 255, 255] @ replicate 20 1, fpos = 0\<rparr> 0
     [0, 0, 0, 0, 0, 0, 0, 0] () = Inl Buffer_overrun"
proof -
  have b: "6 \<le> length [0, 0, 0, 0, 0, 0, 0, 0 :: byte]" by simp
  have n: "uint (be32_value 255 255 255 255) = 4294967295" "sint (be16_value 0 4) = 4"
    by (simp_all add: be32_value_def be16_value_def)
  have av: "drop (fpos \<lparr>fdata = [0, 4, 255, 255, 255, 255, 7, 8], fpos = 0\<rparr>)
              (fdata \<lparr>fdata = [0, 4, 255, 255, 255, 255, 7, 8 :: byte], fpos = 0\<rparr>) =
            0 # 4 # 255 # 255 # 255 # 255 # [7, 8]"
    by simp
  show "tag_read idle_readers \<lparr>fdata = [0, 4, 255, 255, 255, 255, 7, 8], fpos = 0\<rparr> 0 [0, 0, 0, 0, 0, 0, 0, 0] () =
     Inr (0, \<lparr>fdata = [0, 4, 255, 255, 255, 255, 7, 8], fpos = 8\<rparr>, [7, 8, 255, 255, 255, 255, 0, 0], ())"
    unfolding tag_read_header[OF b av] Let_def n
    by (simp add: read_tagBuffer_eq memcpy_to_def)
  have av2: "drop (fpos \<lparr>fdata = [0, 4, 255, 255, 255, 255] @ replicate 20 1, fpos = 0\<rparr>)
              (fdata \<lparr>fdata = [0, 4, 255, 255, 255, 255] @ replicate 20 (1 :: byte), fpos = 0\<rparr>) =
            0 # 4 # 255 # 255 # 255 # 255 # replicate 20 1"
    by simp
  have d: "drop 6 ([0, 4, 255, 255, 255, 255] @ replicate 20 (1 :: byte)) = replicate 20 1"
    by simp
  show "tag_read idle_readers \<lparr>fdata = [0, 4, 255, 255, 255, 255] @ replicate 20 1, fpos = 0\<rparr> 0
     [0, 0, 0, 0, 0, 0, 0, 0] () = Inl Buffer_overrun"
    unfolding tag_read_header[OF b av2] Let_def n
    by (simp add: read_tagBuffer_eq Let_def d memcpy_to_def del: drop_append replicate.simps)
qed



text \<open>
  C1, as stated, fails: a well-formed record of the unknown type 100 with one payload byte
  makes \<open>tag_read\<close> return 0 to its caller; nothing ends the process.
\<close>

theorem tag_read_unknown_type_counterexample:
  "tag_read idle_readers \<lparr>fdata = [0, 100, 0, 0, 0, 1, 7], fpos = 0\<rparr> 0 [0, 0, 0, 0, 0, 0, 0, 0] () =
   Inr (0, \<lparr>fdata = [0, 100, 0, 0, 0, 1, 7], fpos = 7\<rparr>, [7, 100, 0, 0, 0, 1, 0, 0], ())"
proof -
  have av: "drop (fpos \<lparr>fdata = [0, 100, 0, 0, 0, 1, 7], fpos = 0\<rparr>)
              (fdata \<lparr>fdata = [0, 100, 0, 0, 0, 1, 7 :: byte], fpos = 0\<rparr>) = 0 # 100 # 0 # 0 # 0 # 1 # [7]"
    by simp
  have b: "6 \<le> length [0, 0, 0, 0, 0, 0, 0, 0 :: byte]" by simp
  have t: "sint (be16_value 0 100) = 100" by (simp add: be16_value_def)
  have n: "uint (be32_value 0 0 0 1) = 1" by (simp add: be32_value_def)
  show ?thesis
    unfolding tag_read_header[OF b av] Let_def t n
    by (simp add: read_tagBuffer_eq memcpy_to_def tag_read_switch_def TAG_YOU_def TAG_YOU_ITEMS_def
        TAG_YOU_DUNGEON_def TAG_LEVEL_def TAG_LEVEL_ITEMS_def TAG_LEVEL_MONSTERS_def
        TAG_LEVEL_ATTITUDE_def TAG_GHOST_def TAG_LOST_MONSTERS_def)
qed

text \<open>
  C1, amended. For a well-formed header (positive type ID, positive length), a payload that
  is fully readable and fits the tag buffer, and a type ID that the \<open>switch\<close> does not know,
  \<open>tag_read\<close> consumes the header and the payload and returns 0, the value for "no record",
  with the game state untouched.
\<close>

theorem tag_read_unknown_type:
  assumes "6 \<le> length buf"
    and "drop (fpos fp) (fdata fp) = a # b # c # d # e # f # rest"
    and "0 < sint (be16_value a b)" "0 < sint (be32_value c d e f)"
    and "sint (be32_value c d e f) \<le> int (length rest)"
    and "sint (be32_value c d e f) \<le> int (length buf)"
    and "sint (be16_value a b) \<notin> {TAG_YOU, TAG_YOU_ITEMS, TAG_YOU_DUNGEON, TAG_LEVEL, TAG_LEVEL_ITEMS,
           TAG_LEVEL_MONSTERS, TAG_GHOST, TAG_LEVEL_ATTITUDE, TAG_LOST_MONSTERS}"
  shows "tag_read rd fp minorVersion buf game =
         Inr (0, fp\<lparr>fpos := fpos fp + 6 + nat (sint (be32_value c d e f))\<rparr>,
              memcpy_to (memcpy_to buf 0 [a, b, c, d, e, f]) 0
                (take (nat (sint (be32_value c d e f))) rest),
              game)"
proof -
  let ?fp1 = "fp\<lparr>fpos := fpos fp + 6\<rparr>"
  let ?buf1 = "memcpy_to buf 0 [a, b, c, d, e, f]"
  let ?n = "sint (be32_value c d e f)"
  have l: "length ?buf1 = length buf" using assms(1) by (simp add: length_memcpy_to)
  have d: "drop (fpos ?fp1) (fdata ?fp1) = rest"
    using drop_header[OF assms(2)] by simp
  have u: "uint (be32_value c d e f) = ?n"
    using assms(4) by (rule uint_pos_sint)
  have b: "?n < 2147483648"
    using sint_lt[of "be32_value c d e f"] by simp
  have p: "read_tagBuffer ?fp1 ?buf1 ?n =
           Inr (?n, ?fp1\<lparr>fpos := fpos ?fp1 + nat ?n\<rparr>, memcpy_to ?buf1 0 (take (nat ?n) rest))"
    using assms b l d by (intro read_payload_full) simp_all
  have sw: "tag_read_switch rd (sint (be16_value a b)) th minorVersion buf2 game = None" for th buf2
    using assms(7) by (simp add: tag_read_switch_def)
  show ?thesis
    unfolding tag_read_header[OF assms(1,2)] Let_def u
    using assms(3,4) by (simp add: p sw)
qed

theorem tag_read_unknown_type_witness:
  "6 \<le> length [0, 0, 0, 0, 0, 0, 0, 0 :: byte]
   \<and> drop (fpos \<lparr>fdata = [0, 100, 0, 0, 0, 1, 7], fpos = 0\<rparr>)
        (fdata \<lparr>fdata = [0, 100, 0, 0, 0, 1, 7 :: byte], fpos = 0\<rparr>) = 0 # 100 # 0 # 0 # 0 # 1 # [7]
   \<and> 0 < sint (be16_value 0 100) \<and> 0 < sint (be32_value 0 0 0 1)
   \<and> sint (be32_value 0 0 0 1) \<le> int (length [7 :: byte])
   \<and> sint (be32_value 0 0 0 1) \<le> int (length [0, 0, 0, 0, 0, 0, 0, 0 :: byte])
   \<and> sint (be16_value 0 100) \<notin> {TAG_YOU, TAG_YOU_ITEMS, TAG_YOU_DUNGEON, TAG_LEVEL, TAG_LEVEL_ITEMS,
           TAG_LEVEL_MONSTERS, TAG_GHOST, TAG_LEVEL_ATTITUDE, TAG_LOST_MONSTERS}
   \<and> tag_read idle_readers \<lparr>fdata = [0, 100, 0, 0, 0, 1, 7], fpos = 0\<rparr> 0 [0, 0, 0, 0, 0, 0, 0, 0] () =
         Inr (0, \<lparr>fdata = [0, 100, 0, 0, 0, 1, 7], fpos = 0\<rparr>
                   \<lparr>fpos := fpos \<lparr>fdata = [0, 100, 0, 0, 0, 1, 7 :: byte], fpos = 0\<rparr> + 6
                              + nat (sint (be32_value 0 0 0 1))\<rparr>,
              memcpy_to (memcpy_to [0, 0, 0, 0, 0, 0, 0, 0] 0 [0, 100, 0, 0, 0, 1]) 0
                (take (nat (sint (be32_value 0 0 0 1))) [7]),
              ())"
proof -
  have t: "sint (be16_value 0 100) = 100" by (simp add: be16_value_def)
  have n: "sint (be32_value 0 0 0 1) = 1" by (simp add: be32_value_def)
  have h1: "6 \<le> length [0, 0, 0, 0, 0, 0, 0, 0 :: byte]" by simp
  have h2: "drop (fpos \<lparr>fdata = [0, 100, 0, 0, 0, 1, 7], fpos = 0\<rparr>)
        (fdata \<lparr>fdata = [0, 100, 0, 0, 0, 1, 7 :: byte], fpos = 0\<rparr>) = 0 # 100 # 0 # 0 # 0 # 1 # [7]"
    by simp
  have h3: "0 < sint (be16_value 0 100)" "0 < sint (be32_value 0 0 0 1)"
    "sint (be32_value 0 0 0 1) \<le> int (length [7 :: byte])"
    "sint (be32_value 0 0 0 1) \<le> int (length [0, 0, 0, 0, 0, 0, 0, 0 :: byte])"
    by (simp_all add: t n)
  have h4: "sint (be16_value 0 100) \<notin> {TAG_YOU, TAG_YOU_ITEMS, TAG_YOU_DUNGEON, TAG_LEVEL, TAG_LEVEL_ITEMS,
           TAG_LEVEL_MONSTERS, TAG_GHOST, TAG_LEVEL_ATTITUDE, TAG_LOST_MONSTERS}"
    by (simp add: t TAG_YOU_def TAG_YOU_ITEMS_def
        TAG_YOU_DUNGEON_def TAG_LEVEL_def TAG_LEVEL_ITEMS_def TAG_LEVEL_MONSTERS_def
        TAG_LEVEL_ATTITUDE_def TAG_GHOST_def TAG_LOST_MONSTERS_def)
  from tag_read_unknown_type[OF h1 h2 h3 h4, of idle_readers 0 "()"] h1 h2 h3 h4
  show ?thesis by blast
qed

text \<open>
  C8. For every tag other than \<open>TAG_LEVEL_ATTITUDE\<close>, \<open>tag_missing\<close> does not return: it
  prints its diagnostic and ends the process with code -1.
\<close>

theorem tag_missing_fatal:
  "tag \<noteq> TAG_LEVEL_ATTITUDE \<Longrightarrow>
   tag_missing k tag minorVersion menv =
     Inl (Process_end ''Tag %d is missing;  file is likely corrupt.'' (- 1))"
  by (simp add: tag_missing_def)

theorem tag_missing_fatal_witness:
  "TAG_GHOST \<noteq> TAG_LEVEL_ATTITUDE
   \<and> tag_missing \<lparr>MHITNOT = 201, MF_CREATED_FRIENDLY = 1, ENCH_CHARM = 5, BEH_SLEEP = 0, BEH_WANDER = 1,
                    BEH_SEEK = 2, BEH_FLEE = 3\<rparr> TAG_GHOST 0 [] =
     Inl (Process_end ''Tag %d is missing;  file is likely corrupt.'' (- 1))"
proof -
  have h: "TAG_GHOST \<noteq> TAG_LEVEL_ATTITUDE" by (simp add: TAG_GHOST_def TAG_LEVEL_ATTITUDE_def)
  from tag_missing_fatal[OF h] h show ?thesis by blast
qed

theorem tag_write_framing_witness:
  "(offset \<lparr>tagID = 4, offset = 0, file_p = None\<rparr> = 0
      \<and> tag_write \<lparr>tagID = 4, offset = 0, file_p = None\<rparr> [1, 2, 3, 4, 5, 6, 7, 8] \<lparr>fdata = [], fpos = 0\<rparr> =
          Inr (\<lparr>tagID = 4, offset = 0, file_p = None\<rparr>, [1, 2, 3, 4, 5, 6, 7, 8], \<lparr>fdata = [], fpos = 0\<rparr>))
   \<and> (file_p \<lparr>tagID = 4, offset = 3, file_p = None\<rparr> = None
      \<and> 0 < offset \<lparr>tagID = 4, offset = 3, file_p = None\<rparr>
      \<and> offset \<lparr>tagID = 4, offset = 3, file_p = None\<rparr> \<le> int (length [1, 2, 3, 4, 5, 6, 7, 8 :: byte])
      \<and> 6 \<le> length [1, 2, 3, 4, 5, 6, 7, 8 :: byte]
      \<and> sint (tagID \<lparr>tagID = 4, offset = 3, file_p = None\<rparr>) \<noteq> TAG_VERSION
      \<and> tag_write \<lparr>tagID = 4, offset = 3, file_p = None\<rparr> [1, 2, 3, 4, 5, 6, 7, 8] \<lparr>fdata = [], fpos = 0\<rparr> =
          Inr (\<lparr>tagID = 4, offset = 3, file_p = None\<rparr>, [1, 2, 3, 4, 5, 6, 7, 8],
               \<lparr>fdata = [0, 4, 0, 0, 0, 3, 1, 2, 3], fpos = 9\<rparr>))
   \<and> (0 < offset \<lparr>tagID = 0, offset = 3, file_p = None\<rparr>
      \<and> offset \<lparr>tagID = 0, offset = 3, file_p = None\<rparr> \<le> int (length [1, 2, 3, 4, 5, 6, 7, 8 :: byte])
      \<and> sint (tagID \<lparr>tagID = 0, offset = 3, file_p = None\<rparr>) = TAG_VERSION
      \<and> tag_write \<lparr>tagID = 0, offset = 3, file_p = None\<rparr> [1, 2, 3, 4, 5, 6, 7, 8] \<lparr>fdata = [], fpos = 0\<rparr> =
          Inr (\<lparr>tagID = 0, offset = 3, file_p = None\<rparr>, [1, 2, 3, 4, 5, 6, 7, 8],
               \<lparr>fdata = [1, 2, 3], fpos = 3\<rparr>))"
  using tag_write_framing[of "\<lparr>tagID = 4, offset = 0, file_p = None\<rparr>" "[1, 2, 3, 4, 5, 6, 7, 8]"
      "\<lparr>fdata = [], fpos = 0\<rparr>"]
    tag_write_framing[of "\<lparr>tagID = 4, offset = 3, file_p = None\<rparr>" "[1, 2, 3, 4, 5, 6, 7, 8]"
      "\<lparr>fdata = [], fpos = 0\<rparr>"]
    tag_write_framing[of "\<lparr>tagID = 0, offset = 3, file_p = None\<rparr>" "[1, 2, 3, 4, 5, 6, 7, 8]"
      "\<lparr>fdata = [], fpos = 0\<rparr>"]
  by (simp add: TAG_VERSION_def be16_bytes_def be32_bytes_def fwrite_def fputc_def)

subsection \<open>Strings\<close>

lemma write_bytes_buf:
  "file_p th = None \<Longrightarrow> 0 \<le> offset th \<Longrightarrow> offset th + int (length bs) \<le> int (length buf) \<Longrightarrow>
   write_bytes th bs buf = Inr (th\<lparr>offset := offset th + int (length bs)\<rparr>, memcpy_to buf (nat (offset th)) bs)"
  by (simp add: write_bytes_def)

lemma read_bytes_buf:
  "file_p th = None \<Longrightarrow> 0 \<le> offset th \<Longrightarrow> offset th + int sz \<le> int (length buf) \<Longrightarrow>
   sz \<le> length data \<Longrightarrow>
   read_bytes th data sz buf =
     Inr (take sz (drop (nat (offset th)) buf) @ drop sz data, th\<lparr>offset := offset th + int sz\<rparr>)"
  by (simp add: read_bytes_def)

text \<open>What \<open>marshallString\<close> leaves in the buffer.\<close>

lemma marshallString_buf:
  assumes th: "file_p th = None" "0 \<le> offset th"
    and len: "0 \<le> len" "len \<le> int (length data)"
    and room: "offset th + 2 + len \<le> int (length buf)"
    and eq: "len = (if maxSize > 0 \<and> int (length data) > maxSize then maxSize else int (length data))"
  shows "marshallString th data maxSize buf =
         Inr (th\<lparr>offset := offset th + 2 + len\<rparr>,
              memcpy_to buf (nat (offset th)) (be16_bytes (word_of_int len) @ take (nat len) data))"
proof -
  let ?n = "nat (offset th)"
  let ?p = "be16_bytes (word_of_int len :: 16 word)"
  let ?d = "take (nat len) data"
  let ?buf1 = "memcpy_to buf ?n ?p"
  have l1: "length ?buf1 = length buf"
    using th len room by (simp add: length_memcpy_to length_be_bytes)
  have lt: "int (length ?d) = len" using len by simp
  have m: "marshallShort th (word_of_int len) buf = Inr (th\<lparr>offset := offset th + 2\<rparr>, ?buf1)"
    using th len room by (intro marshallShort_buf) simp_all
  have w: "write_bytes (th\<lparr>offset := offset th + 2\<rparr>) ?d ?buf1 =
           Inr (th\<lparr>offset := offset th + 2 + len\<rparr>, memcpy_to ?buf1 (nat (offset th + 2)) ?d)"
    using th room l1 lt write_bytes_buf[of "th\<lparr>offset := offset th + 2\<rparr>" ?d ?buf1]
    by simp
  have "nat (offset th + 2) = ?n + length ?p" "?n + length ?p + length ?d \<le> length buf"
    using th room lt by (simp_all add: length_be_bytes nat_add_distrib) 
  then have c: "memcpy_to ?buf1 (nat (offset th + 2)) ?d = memcpy_to buf ?n (?p @ ?d)"
    by (rule memcpy_to_append_eq)
  show ?thesis
    unfolding marshallString_def Let_def eq[symmetric]
    by (simp only: m w c sum.case prod.case)
qed


lemma drop_memcpy_to:
  "i + length bs \<le> length buf \<Longrightarrow> drop i (memcpy_to buf i bs) = bs @ drop (i + length bs) buf"
  by (simp add: memcpy_to_def)

text \<open>Reading a string field: the buffer holds a length prefix \<open>w\<close> and the bytes \<open>d\<close>.\<close>

lemma unmarshallCString_buf:
  assumes th: "file_p th = None" "0 \<le> offset th"
    and room: "offset th + 2 + int (length d) \<le> int (length buf0)"
    and w: "sint w = int (length d)"
    and ms: "0 < maxSize" "nat maxSize \<le> length data"
    and cl: "copylen = (if int (length d) \<ge> maxSize then maxSize - 1 else int (length d))"
  shows "unmarshallCString th data maxSize (memcpy_to buf0 (nat (offset th)) (be16_bytes w @ d)) =
         Inr (copylen, (take (nat copylen) d @ drop (nat copylen) data)[nat copylen := 0],
              th\<lparr>offset := offset th + 2 + int (length d)\<rparr>)"
proof -
  let ?n = "nat (offset th)"
  let ?buf = "memcpy_to buf0 ?n (be16_bytes w @ d)"
  have fit: "?n + length (be16_bytes w @ d) \<le> length buf0"
    using th room by (simp add: length_be_bytes)
  have l: "length ?buf = length buf0"
    using fit by (rule length_memcpy_to)
  have "?buf ! (?n + j) = (be16_bytes w @ d) ! j" if "j < 2" for j
    using fit that by (intro nth_memcpy_to) (simp_all add: length_be_bytes)
  from this[of 0] this[of 1]
  have "be16_value (?buf ! ?n) (?buf ! (?n + 1)) = w"
    by (simp add: be16_bytes_def be16_value_bytes)
  then have us: "unmarshallShort th ?buf = Inr (w, th\<lparr>offset := offset th + 2\<rparr>)"
    using th room l by (simp add: unmarshallShort_buf)
  have c0: "0 \<le> copylen" "copylen \<le> int (length d)" "nat copylen < length data"
    using ms cl by (auto split: if_splits)
  have "drop (nat (offset th + 2)) ?buf = drop 2 (drop ?n ?buf)"
    using th by (simp add: nat_add_distrib add.commute)
  also have "\<dots> = d @ drop (?n + length (be16_bytes w @ d)) buf0"
    using fit by (simp add: drop_memcpy_to length_be_bytes)
  finally have dr: "take (nat copylen) (drop (nat (offset th + 2)) ?buf) = take (nat copylen) d"
    using c0 by simp
  have rb: "read_bytes (th\<lparr>offset := offset th + 2\<rparr>) data (nat copylen) ?buf =
            Inr (take (nat copylen) d @ drop (nat copylen) data, th\<lparr>offset := offset th + 2 + copylen\<rparr>)"
    using th room l c0 dr
      read_bytes_buf[of "th\<lparr>offset := offset th + 2\<rparr>" "nat copylen" ?buf data]
    by simp
  have ld: "nat copylen < length (take (nat copylen) d @ drop (nat copylen) data)"
    using c0 by simp
  have cond: "(if sint w \<ge> maxSize \<and> maxSize > 0 then maxSize - 1 else sint w) = copylen"
    using ms cl w by simp
  have adv: "advance (th\<lparr>offset := offset th + 2 + copylen\<rparr>) (sint w - copylen) =
             th\<lparr>offset := offset th + 2 + int (length d)\<rparr>"
    using th w by (simp add: advance_def)
  show ?thesis
    unfolding unmarshallCString_def Let_def
    using c0(1) ld by (simp only: us sum.case prod.case cond rb adv) simp
qed

lemma unmarshallString_buf:
  assumes th: "file_p th = None" "0 \<le> offset th"
    and room: "offset th + 2 + int (length d) \<le> int (length buf0)"
    and w: "sint w = int (length d)"
    and ms: "0 < maxSize"
    and cl: "copylen = (if int (length d) \<ge> maxSize then maxSize - 1 else int (length d))"
  shows "unmarshallString th maxSize (memcpy_to buf0 (nat (offset th)) (be16_bytes w @ d)) =
         Inr (take (nat copylen) d, th\<lparr>offset := offset th + 2 + int (length d)\<rparr>)"
proof -
  let ?data = "(replicate (nat maxSize) (0 :: byte))[0 := 0]"
  have ld: "nat maxSize \<le> length ?data" by simp
  have c0: "0 \<le> copylen" "copylen \<le> int (length d)"
    using ms cl by (auto split: if_splits)
  have t: "take (nat copylen) ((take (nat copylen) d @ drop (nat copylen) ?data)[nat copylen := 0])
           = take (nat copylen) d"
    using c0 by simp
  show ?thesis
    unfolding unmarshallString_def Let_def
    using ms by (simp only: unmarshallCString_buf[OF th room w ms ld cl] sum.case prod.case t) simp
qed


lemma unmarshallShort_prefix:
  assumes th: "file_p th = None" "0 \<le> offset th"
    and room: "offset th + 2 + int (length d) \<le> int (length buf0)"
  shows "unmarshallShort th (memcpy_to buf0 (nat (offset th)) (be16_bytes w @ d)) =
         Inr (w, th\<lparr>offset := offset th + 2\<rparr>)"
proof -
  let ?n = "nat (offset th)"
  let ?buf = "memcpy_to buf0 ?n (be16_bytes w @ d)"
  have fit: "?n + length (be16_bytes w @ d) \<le> length buf0"
    using th room by (simp add: length_be_bytes)
  have l: "length ?buf = length buf0"
    using fit by (rule length_memcpy_to)
  have "?buf ! (?n + j) = (be16_bytes w @ d) ! j" if "j < 2" for j
    using fit that by (intro nth_memcpy_to) (simp_all add: length_be_bytes)
  from this[of 0] this[of 1]
  have "be16_value (?buf ! ?n) (?buf ! (?n + 1)) = w"
    by (simp add: be16_bytes_def be16_value_bytes)
  then show ?thesis
    using th room l by (simp add: unmarshallShort_buf)
qed

lemma sint16_small: "0 \<le> n \<Longrightarrow> n \<le> 32767 \<Longrightarrow> sint (word_of_int n :: 16 word) = n"
  by (simp add: sint16_of_int)

lemma terminator_update:
  "k \<le> length d \<Longrightarrow> k < length data \<Longrightarrow>
   (take k d @ drop k data)[k := c] = take k d @ [c] @ drop (k + 1) data"
  by (simp add: list_update_append upd_conv_take_nth_drop min_absorb2)

text \<open>
  C5, amended. A header bound to the tag buffer, \<open>0 < maxSize \<le> 32767\<close>, a string longer than
  \<open>maxSize\<close>, and room for \<open>2 + maxSize\<close> bytes at the cursor. \<open>marshallString\<close> writes the
  prefix and \<open>maxSize\<close> bytes; \<open>unmarshallString\<close> from the same cursor with the same
  \<open>maxSize\<close> returns the first \<open>maxSize - 1\<close> bytes of the string and leaves the cursor where
  the writer left it, \<open>2 + maxSize\<close> bytes on, so the next field is in step.
  \<open>unmarshallCString\<close> puts the terminator 0 after the \<open>maxSize - 1\<close> bytes in the caller's
  array.
\<close>

theorem string_clamp_round_trip:
  assumes "file_p th = None" "0 \<le> offset th"
    and "0 < maxSize" "maxSize \<le> 32767" "maxSize < int (length s)"
    and "offset th + 2 + maxSize \<le> int (length buf)"
  shows "\<exists>buf1. marshallString th s maxSize buf = Inr (th\<lparr>offset := offset th + 2 + maxSize\<rparr>, buf1)
           \<and> unmarshallString th maxSize buf1 =
               Inr (take (nat (maxSize - 1)) s, th\<lparr>offset := offset th + 2 + maxSize\<rparr>)
           \<and> (\<forall>data. nat maxSize \<le> length data \<longrightarrow>
                 unmarshallCString th data maxSize buf1 =
                   Inr (maxSize - 1, take (nat (maxSize - 1)) s @ [0] @ drop (nat maxSize) data,
                        th\<lparr>offset := offset th + 2 + maxSize\<rparr>))"
proof -
  let ?d = "take (nat maxSize) s"
  let ?w = "word_of_int maxSize :: 16 word"
  let ?buf1 = "memcpy_to buf (nat (offset th)) (be16_bytes ?w @ ?d)"
  have ld: "int (length ?d) = maxSize" using assms(3,5) by simp
  have m: "marshallString th s maxSize buf = Inr (th\<lparr>offset := offset th + 2 + maxSize\<rparr>, ?buf1)"
    using assms by (intro marshallString_buf) simp_all
  have room: "offset th + 2 + int (length ?d) \<le> int (length buf)" using assms(6) ld by simp
  have w: "sint ?w = int (length ?d)" using assms(3,4) ld by (simp add: sint16_small)
  have cl: "maxSize - 1 = (if int (length ?d) \<ge> maxSize then maxSize - 1 else int (length ?d))"
    using ld by simp
  have tk: "take (nat (maxSize - 1)) ?d = take (nat (maxSize - 1)) s"
    using assms(3) by (simp add: min_absorb1)
  have u: "unmarshallString th maxSize ?buf1 =
           Inr (take (nat (maxSize - 1)) s, th\<lparr>offset := offset th + 2 + maxSize\<rparr>)"
    using unmarshallString_buf[OF assms(1,2) room w assms(3) cl] ld tk by simp
  have c: "unmarshallCString th data maxSize ?buf1 =
             Inr (maxSize - 1, take (nat (maxSize - 1)) s @ [0] @ drop (nat maxSize) data,
                  th\<lparr>offset := offset th + 2 + maxSize\<rparr>)"
    if "nat maxSize \<le> length data" for data
  proof -
    have "(take (nat (maxSize - 1)) ?d @ drop (nat (maxSize - 1)) data)[nat (maxSize - 1) := 0]
          = take (nat (maxSize - 1)) ?d @ [0] @ drop (nat (maxSize - 1) + 1) data"
      using assms(3,5) that by (intro terminator_update) simp_all
    moreover have "nat (maxSize - 1) + 1 = nat maxSize" using assms(3) by simp
    ultimately show ?thesis
      using unmarshallCString_buf[OF assms(1,2) room w assms(3) that cl] ld tk by simp
  qed
  from m u c show ?thesis by blast
qed



text \<open>
  With \<open>maxSize = 32768\<close> the length prefix 32768 does not fit a \<open>short\<close>: it is read back
  as -32768, the clamp does not apply, and the negative \<open>copylen\<close> overruns the array.
\<close>

lemma string_clamp_32768:
  assumes th: "file_p th = None" "0 \<le> offset th"
    and s: "32768 < int (length s)"
    and room: "offset th + 32770 \<le> int (length buf)"
  shows "marshallString th s 32768 buf =
           Inr (th\<lparr>offset := offset th + 32770\<rparr>,
                memcpy_to buf (nat (offset th)) (be16_bytes (word_of_int 32768) @ take 32768 s))
         \<and> unmarshallString th 32768
               (memcpy_to buf (nat (offset th)) (be16_bytes (word_of_int 32768) @ take 32768 s)) =
             Inl Array_overrun"
proof -
  let ?d = "take 32768 s"
  let ?w = "word_of_int 32768 :: 16 word"
  let ?buf1 = "memcpy_to buf (nat (offset th)) (be16_bytes ?w @ ?d)"
  have ld: "int (length ?d) = 32768" using s by simp
  have m: "marshallString th s 32768 buf = Inr (th\<lparr>offset := offset th + 2 + 32768\<rparr>,
            memcpy_to buf (nat (offset th)) (be16_bytes ?w @ take (nat 32768) s))"
    using th s room by (intro marshallString_buf) simp_all
  have room': "offset th + 2 + int (length ?d) \<le> int (length buf)" using room ld by simp
  have us: "unmarshallShort th ?buf1 = Inr (?w, th\<lparr>offset := offset th + 2\<rparr>)"
    using th room' by (rule unmarshallShort_prefix)
  have sw: "sint ?w = - 32768" by simp
  have u: "unmarshallString th 32768 ?buf1 = Inl Array_overrun"
    unfolding unmarshallString_def unmarshallCString_def Let_def
    by (simp only: us sum.case prod.case sw) simp
  from m u show ?thesis by simp
qed

text \<open>
  C5, as stated for every \<open>maxSize > 0\<close>, fails at \<open>maxSize = 32768\<close> with a string of 32769
  bytes: the string is written, and reading it back does not return.
\<close>

theorem string_clamp_counterexample:
  "marshallString new_tagHeader (replicate 32769 65) 32768 (replicate 32770 0) =
     Inr (new_tagHeader\<lparr>offset := 32770\<rparr>,
          memcpy_to (replicate 32770 0) 0 (be16_bytes (word_of_int 32768) @ replicate 32768 65))
   \<and> unmarshallString new_tagHeader 32768
         (memcpy_to (replicate 32770 0) 0 (be16_bytes (word_of_int 32768) @ replicate 32768 65)) =
       Inl Array_overrun"
proof -
  have h: "file_p new_tagHeader = None" "0 \<le> offset new_tagHeader"
    "32768 < int (length (replicate 32769 (65 :: byte)))"
    "offset new_tagHeader + 32770 \<le> int (length (replicate 32770 (0 :: byte)))"
    by (simp_all add: new_tagHeader_def)
  have o: "offset new_tagHeader = 0" by (simp add: new_tagHeader_def)
  have t: "take 32768 (replicate 32769 (65 :: byte)) = replicate 32768 65" by simp
  from string_clamp_32768[OF h] show ?thesis
    by (simp only: o t nat_0 add_0)
qed


theorem string_clamp_round_trip_witness:
  "file_p new_tagHeader = None \<and> 0 \<le> offset new_tagHeader
   \<and> (0 :: int) < 3 \<and> (3 :: int) \<le> 32767 \<and> 3 < int (length [104, 101, 108, 108, 111 :: byte])
   \<and> offset new_tagHeader + 2 + 3 \<le> int (length (replicate 8 (0 :: byte)))
   \<and> (\<exists>buf1. marshallString new_tagHeader [104, 101, 108, 108, 111] 3 (replicate 8 0) =
                Inr (new_tagHeader\<lparr>offset := offset new_tagHeader + 2 + 3\<rparr>, buf1)
           \<and> unmarshallString new_tagHeader 3 buf1 =
               Inr ([104, 101], new_tagHeader\<lparr>offset := offset new_tagHeader + 2 + 3\<rparr>))"
proof -
  have h: "file_p new_tagHeader = None" "0 \<le> offset new_tagHeader"
    "(0 :: int) < 3" "(3 :: int) \<le> 32767" "3 < int (length [104, 101, 108, 108, 111 :: byte])"
    "offset new_tagHeader + 2 + 3 \<le> int (length (replicate 8 (0 :: byte)))"
    by (simp_all add: new_tagHeader_def)
  have t: "take (nat (3 - 1)) [104, 101, 108, 108, 111 :: byte] = [104, 101]"
    by (simp add: numeral_eq_Suc)
  from string_clamp_round_trip[OF h] obtain buf1 where
    "marshallString new_tagHeader [104, 101, 108, 108, 111] 3 (replicate 8 0) =
       Inr (new_tagHeader\<lparr>offset := offset new_tagHeader + 2 + 3\<rparr>, buf1)"
    "unmarshallString new_tagHeader 3 buf1 =
       Inr (take (nat (3 - 1)) [104, 101, 108, 108, 111],
            new_tagHeader\<lparr>offset := offset new_tagHeader + 2 + 3\<rparr>)"
    by blast
  with h t show ?thesis by (simp only: simp_thms) blast
qed

lemma fpos_fwrite: "fpos (fwrite bs f) = fpos f + length bs"
  unfolding fwrite_def by (induction bs arbitrary: f) (simp_all add: fputc_def)

lemma cursor_writeByte:
  "writeByte th c buf = Inr (th1, buf1) \<Longrightarrow> cursor th1 = cursor th + 1"
  by (auto simp: writeByte_def cursor_def fputc_def split: option.splits if_splits)

lemma cursor_marshallShort:
  "marshallShort th w buf = Inr (th1, buf1) \<Longrightarrow> cursor th1 = cursor th + 2"
  by (auto simp: marshallShort_def Let_def split: sum.splits dest!: cursor_writeByte)

lemma cursor_write_bytes:
  "write_bytes th bs buf = Inr (th1, buf1) \<Longrightarrow> cursor th1 = cursor th + int (length bs)"
  by (auto simp: write_bytes_def cursor_def fpos_fwrite split: option.splits if_splits)

lemma cursor_marshallString:
  "marshallString th data m buf = Inr (th1, buf1) \<Longrightarrow> cursor th + 2 \<le> cursor th1"
  by (auto simp: marshallString_def Let_def split: sum.splits
      dest!: cursor_marshallShort cursor_write_bytes)

text \<open>
  C10. With \<open>maxSize \<le> 0\<close>, \<open>unmarshallString\<close> returns the empty string and the header as
  it was, whether the header is bound to the tag buffer or to a stream: it reads nothing, not
  even the length prefix. A string field written from that cursor moved the writer at least
  the 2 bytes of the prefix on, so the reader is left behind the next field.
\<close>

theorem unmarshallString_nonpositive:
  assumes "maxSize \<le> 0"
  shows "unmarshallString th maxSize buf = Inr ([], th)
         \<and> (\<forall>data m buf0 th1. marshallString th data m buf0 = Inr (th1, buf) \<longrightarrow>
               cursor th + 2 \<le> cursor th1)"
  using assms by (simp add: unmarshallString_def cursor_marshallString)

theorem unmarshallString_nonpositive_witness:
  "(0 :: int) \<le> 0
   \<and> unmarshallString new_tagHeader 0 [0, 2, 104, 105] = Inr ([], new_tagHeader)
   \<and> marshallString new_tagHeader [104, 105] 0 [0, 0, 0, 0] =
       Inr (new_tagHeader\<lparr>offset := 4\<rparr>, [0, 2, 104, 105])
   \<and> cursor new_tagHeader + 2 \<le> cursor (new_tagHeader\<lparr>offset := 4\<rparr>)"
proof -
  have h: "(0 :: int) \<le> 0" by simp
  have m: "marshallString new_tagHeader [104, 105] 0 [0, 0, 0, 0] =
       Inr (new_tagHeader\<lparr>offset := 4\<rparr>, [0, 2, 104, 105])"
    by (simp add: marshallString_def marshallShort_def writeByte_def write_bytes_def
        new_tagHeader_def memcpy_to_def Let_def)
  from unmarshallString_nonpositive[OF h, of new_tagHeader "[0, 2, 104, 105]"] m h
  show ?thesis by blast
qed

subsection \<open>Ghosts\<close>

lemma readByte_Inl: "readByte th buf = Inl e \<Longrightarrow> e = Buffer_overrun"
  by (cases "file_p th"; cases "fgetc (the (file_p th))"; cases "fst (fgetc (the (file_p th)))")
    (auto simp: readByte_def split: if_splits)

lemma unmarshallShort_Inl: "unmarshallShort th buf = Inl e \<Longrightarrow> e = Buffer_overrun"
  by (auto simp: unmarshallShort_def Let_def split: sum.splits dest: readByte_Inl)

lemma read_bytes_Inl: "read_bytes th data sz buf = Inl e \<Longrightarrow> e \<noteq> Values_overrun"
  by (cases "file_p th"; cases "fread sz (the (file_p th))")
    (auto simp: read_bytes_def split: if_splits)

lemma ghost_values_loop_safe:
  "0 \<le> i \<Longrightarrow> count_c \<le> int (length (ghost_values ghost)) \<Longrightarrow>
   ghost_values_loop i count_c buf th ghost \<noteq> Inl Values_overrun"
proof (induction i count_c buf th ghost rule: ghost_values_loop.induct)
  case (1 i count_c buf th ghost)
  show ?case
  proof (cases "i < count_c")
    case False
    then show ?thesis by (subst ghost_values_loop.simps) simp
  next
    case True
    show ?thesis
    proof (cases "unmarshallShort th buf")
      case (Inl e)
      then have "e \<noteq> Values_overrun"
        by (auto dest: unmarshallShort_Inl)
      with True Inl show ?thesis by (subst ghost_values_loop.simps) simp
    next
      case (Inr r)
      obtain v th1 where r: "r = (v, th1)" by (cases r)
      have inb: "0 \<le> i \<and> nat i < length (ghost_values ghost)" using 1(2,3) True by simp
      have "ghost_values_loop (i + 1) count_c buf th1 (ghost\<lparr>ghost_values := (ghost_values ghost)[nat i := v]\<rparr>)
            \<noteq> Inl Values_overrun"
        using 1(1)[OF True Inr[unfolded r] refl inb] 1(2,3) by simp
      with True Inr r inb show ?thesis by (subst ghost_values_loop.simps) simp
    qed
  qed
qed

lemma ghost_values_loop_keeps:
  "0 \<le> i \<Longrightarrow> ghost_values_loop i count_c buf th ghost = Inr (g, th') \<Longrightarrow>
   length (ghost_values g) = length (ghost_values ghost) \<and> name g = name ghost
   \<and> (\<forall>j. int j < i \<or> count_c \<le> int j \<longrightarrow> ghost_values g ! j = ghost_values ghost ! j)"
proof (induction i count_c buf th ghost rule: ghost_values_loop.induct)
  case (1 i count_c buf th ghost)
  show ?case
  proof (cases "i < count_c")
    case False
    with 1(3) show ?thesis by (subst (asm) ghost_values_loop.simps) simp
  next
    case True
    from 1(3) True obtain v th1 where us: "unmarshallShort th buf = Inr (v, th1)"
      and inb: "0 \<le> i \<and> nat i < length (ghost_values ghost)"
      and rec: "ghost_values_loop (i + 1) count_c buf th1
                  (ghost\<lparr>ghost_values := (ghost_values ghost)[nat i := v]\<rparr>) = Inr (g, th')"
      by (subst (asm) ghost_values_loop.simps) (auto split: sum.splits if_splits)
    let ?gh = "ghost\<lparr>ghost_values := (ghost_values ghost)[nat i := v]\<rparr>"
    have ih0: "length (ghost_values g) = length (ghost_values ?gh) \<and> name g = name ?gh
      \<and> (\<forall>j. int j < i + 1 \<or> count_c \<le> int j \<longrightarrow> ghost_values g ! j = ghost_values ?gh ! j)"
      by (rule 1(1)[OF True us refl inb]) (use 1(2) rec in simp_all)
    then have ih: "length (ghost_values g) = length (ghost_values ghost)" "name g = name ghost"
      "\<And>j. int j < i + 1 \<or> count_c \<le> int j \<Longrightarrow>
         ghost_values g ! j = (ghost_values ghost)[nat i := v] ! j"
      by auto
    have "ghost_values g ! j = ghost_values ghost ! j" if "int j < i \<or> count_c \<le> int j" for j
    proof -
      have "int (nat i) = i" using 1(2) by simp
      with that True have "j \<noteq> nat i" by fastforce
      with ih(3)[of j] that show ?thesis by auto
    qed
    with ih(1,2) show ?thesis by simp
  qed
qed


lemma unmarshallCString_Inl:
  assumes "unmarshallCString th data maxSize buf = Inl e"
  shows "e \<noteq> Values_overrun"
proof (cases "unmarshallShort th buf")
  case (Inl e')
  with assms have "e' = e" by (simp add: unmarshallCString_def)
  with Inl unmarshallShort_Inl show ?thesis by blast
next
  case (Inr r)
  obtain len th1 where r: "r = (len, th1)" by (cases r)
  define copylen where "copylen = (if sint len \<ge> maxSize \<and> maxSize > 0 then maxSize - 1 else sint len)"
  show ?thesis
  proof (cases "read_bytes th1 data (nat copylen) buf")
    case (Inl e')
    with read_bytes_Inl have "e' \<noteq> Values_overrun" by blast
    with assms Inr r Inl show ?thesis
      by (auto simp: unmarshallCString_def Let_def copylen_def split: if_splits)
  next
    case rb: (Inr r2)
    with assms Inr r show ?thesis
      by (auto simp: unmarshallCString_def Let_def copylen_def split: if_splits prod.splits)
  qed
qed

lemma unmarshallString_no_Values_overrun:
  "unmarshallString th maxSize buf \<noteq> Inl Values_overrun"
proof
  assume a: "unmarshallString th maxSize buf = Inl Values_overrun"
  then have "0 < maxSize" by (auto simp: unmarshallString_def split: if_splits)
  with a have "unmarshallCString th ((replicate (nat maxSize) 0)[0 := 0]) maxSize buf = Inl Values_overrun"
    by (auto simp: unmarshallString_def Let_def split: sum.splits)
  with unmarshallCString_Inl show False by blast
qed

lemma unmarshallByte_no_Values_overrun:
  "unmarshallByte th buf \<noteq> Inl Values_overrun"
  using readByte_Inl[of th buf Values_overrun] by (auto simp: unmarshallByte_def)

text \<open>
  C9. The ghost's value array has \<open>NUM_GHOST_VALUES\<close> slots. \<open>unmarshallGhost\<close> never stores
  a value outside the array, whatever the record holds. The stored count is the count byte
  as the code reads it, a \<open>char\<close>. If it is larger than \<open>NUM_GHOST_VALUES\<close>, the fill loop
  runs with the bound \<open>NUM_GHOST_VALUES\<close>. Whenever the call returns, the ghost has the name
  that was read, the array still has \<open>NUM_GHOST_VALUES\<close> slots, and every slot from the stored
  count on holds the value of the default-constructed ghost.
\<close>

theorem unmarshallGhost_clamp:
  assumes "length (ghost_values ghost0) = nat NUM_GHOST_VALUES" "0 \<le> NUM_GHOST_VALUES"
  shows "unmarshallGhost NUM_GHOST_VALUES ghost0 th buf \<noteq> Inl Values_overrun
     \<and> (\<forall>nm th1 c th2.
           unmarshallString th 20 buf = Inr (nm, th1) \<and> unmarshallByte th1 buf = Inr (c, th2) \<longrightarrow>
             (NUM_GHOST_VALUES < sint c \<longrightarrow>
                unmarshallGhost NUM_GHOST_VALUES ghost0 th buf =
                  ghost_values_loop 0 NUM_GHOST_VALUES buf th2 (ghost0\<lparr>name := nm\<rparr>))
           \<and> (\<forall>g th'. unmarshallGhost NUM_GHOST_VALUES ghost0 th buf = Inr (g, th') \<longrightarrow>
                  name g = nm \<and> length (ghost_values g) = nat NUM_GHOST_VALUES
                  \<and> (\<forall>j. sint c \<le> int j \<and> j < nat NUM_GHOST_VALUES \<longrightarrow>
                         ghost_values g ! j = ghost_values ghost0 ! j)))"
proof (intro conjI allI impI)
  show "unmarshallGhost NUM_GHOST_VALUES ghost0 th buf \<noteq> Inl Values_overrun"
  proof (cases "unmarshallString th 20 buf")
    case (Inl e)
    with unmarshallString_no_Values_overrun[of th 20 buf] show ?thesis
      by (simp add: unmarshallGhost_def)
  next
    case (Inr r)
    obtain nm th1 where r: "r = (nm, th1)" by (cases r)
    show ?thesis
    proof (cases "unmarshallByte th1 buf")
      case (Inl e)
      with unmarshallByte_no_Values_overrun[of th1 buf] Inr r show ?thesis
        by (simp add: unmarshallGhost_def)
    next
      case b: (Inr r2)
      obtain c th2 where r2: "r2 = (c, th2)" by (cases r2)
      have "ghost_values_loop 0 (if NUM_GHOST_VALUES < sint c then NUM_GHOST_VALUES else sint c) buf th2
              (ghost0\<lparr>name := nm\<rparr>) \<noteq> Inl Values_overrun"
        using assms by (intro ghost_values_loop_safe) auto
      with Inr r b r2 show ?thesis
        by (simp add: unmarshallGhost_def Let_def)
    qed
  qed
next
  fix nm th1 c th2
  assume a: "unmarshallString th 20 buf = Inr (nm, th1) \<and> unmarshallByte th1 buf = Inr (c, th2)"
  then have eq: "unmarshallGhost NUM_GHOST_VALUES ghost0 th buf =
      ghost_values_loop 0 (if NUM_GHOST_VALUES < sint c then NUM_GHOST_VALUES else sint c) buf th2
        (ghost0\<lparr>name := nm\<rparr>)"
    by (simp add: unmarshallGhost_def Let_def)
  {
    assume "NUM_GHOST_VALUES < sint c"
    with eq show "unmarshallGhost NUM_GHOST_VALUES ghost0 th buf =
                  ghost_values_loop 0 NUM_GHOST_VALUES buf th2 (ghost0\<lparr>name := nm\<rparr>)"
      by simp
  }
  fix g th'
  assume r: "unmarshallGhost NUM_GHOST_VALUES ghost0 th buf = Inr (g, th')"
  from ghost_values_loop_keeps[OF _ r[unfolded eq]]
  have k: "length (ghost_values g) = length (ghost_values ghost0)" "name g = nm"
    "\<And>j. (if NUM_GHOST_VALUES < sint c then NUM_GHOST_VALUES else sint c) \<le> int j \<Longrightarrow>
          ghost_values g ! j = ghost_values ghost0 ! j"
    by simp_all
  show "name g = nm" by (rule k(2))
  show "length (ghost_values g) = nat NUM_GHOST_VALUES" using k(1) assms(1) by simp
  fix j
  assume "sint c \<le> int j \<and> j < nat NUM_GHOST_VALUES"
  then show "ghost_values g ! j = ghost_values ghost0 ! j"
    by (intro k(3)) auto
qed


theorem unmarshallGhost_clamp_witness:
  "length (ghost_values \<lparr>name = [], ghost_values = [7, 9]\<rparr>) = nat 2 \<and> (0 :: int) \<le> 2
   \<and> unmarshallString new_tagHeader 20 [0, 1, 65, 3, 0, 5, 0, 6, 0, 7] =
         Inr ([65], new_tagHeader\<lparr>offset := 3\<rparr>)
   \<and> unmarshallByte (new_tagHeader\<lparr>offset := 3\<rparr>) [0, 1, 65, 3, 0, 5, 0, 6, 0, 7] =
         Inr (3, new_tagHeader\<lparr>offset := 4\<rparr>)
   \<and> 2 < sint (3 :: byte)
   \<and> unmarshallGhost 2 \<lparr>name = [], ghost_values = [7, 9]\<rparr> new_tagHeader
         [0, 1, 65, 3, 0, 5, 0, 6, 0, 7] \<noteq> Inl Values_overrun
   \<and> unmarshallGhost 2 \<lparr>name = [], ghost_values = [7, 9]\<rparr> new_tagHeader
         [0, 1, 65, 3, 0, 5, 0, 6, 0, 7] =
       ghost_values_loop 0 2 [0, 1, 65, 3, 0, 5, 0, 6, 0, 7] (new_tagHeader\<lparr>offset := 4\<rparr>)
         (\<lparr>name = [], ghost_values = [7, 9]\<rparr>\<lparr>name := [65]\<rparr>)"
proof -
  have h: "length (ghost_values \<lparr>name = [], ghost_values = [7, 9]\<rparr>) = nat 2" "(0 :: int) \<le> 2"
    by simp_all
  have s: "unmarshallString new_tagHeader 20 [0, 1, 65, 3, 0, 5, 0, 6, 0, 7] =
         Inr ([65], new_tagHeader\<lparr>offset := 3\<rparr>)"
    by (simp add: unmarshallString_def unmarshallCString_def unmarshallShort_def readByte_def
        read_bytes_def advance_def new_tagHeader_def Let_def)
  have b: "unmarshallByte (new_tagHeader\<lparr>offset := 3\<rparr>) [0, 1, 65, 3, 0, 5, 0, 6, 0, 7] =
         Inr (3, new_tagHeader\<lparr>offset := 4\<rparr>)"
    by (simp add: unmarshallByte_def readByte_def new_tagHeader_def)
  have c: "2 < sint (3 :: byte)" by simp
  from unmarshallGhost_clamp[OF h, of new_tagHeader "[0, 1, 65, 3, 0, 5, 0, 6, 0, 7]"] h s b c
  show ?thesis by blast
qed

subsection \<open>The missing attitude tag\<close>

text \<open>
  What the routine does for one monster whatever the rest of the table holds: the foe, the
  attitude, and the behaviour for the legacy codes 0, 3, 10, 1 and 6.
\<close>

lemma attitude_slot_length: "length (snd (attitude_slot k i s)) = length (snd s)"
  by (cases s) (simp add: attitude_slot_def Let_def)

lemma attitude_slot_other:
  "j \<noteq> i \<Longrightarrow> snd (attitude_slot k i s) ! j = snd s ! j"
  by (cases s) (simp add: attitude_slot_def Let_def)

lemma fold_attitude_slot_untouched:
  "j \<notin> set is \<Longrightarrow> snd (fold (attitude_slot k) is s) ! j = snd s ! j"
  by (induction "is" arbitrary: s) (simp_all add: attitude_slot_other)

lemma fold_attitude_slot_length:
  "length (snd (fold (attitude_slot k) is s)) = length (snd s)"
  by (induction "is" arbitrary: s) (simp_all add: attitude_slot_length)


lemma attitude_slot_at:
  assumes "i < length (snd s)" "0 \<le> type_m (snd s ! i)"
  shows "foe (snd (attitude_slot k i s) ! i) = MHITNOT k
     \<and> foe_memory (snd (attitude_slot k i s) ! i) = 0
     \<and> attitude (snd (attitude_slot k i s) ! i) =
         (if testbits (flags (snd s ! i)) (MF_CREATED_FRIENDLY k)
             \<or> (behaviour (snd s ! i) = 7 \<and> \<not> has_ench (snd s ! i) (ENCH_CHARM k))
          then ATT_FRIENDLY else ATT_HOSTILE)
     \<and> behaviour (snd (attitude_slot k i s) ! i) =
         (if behaviour (snd s ! i) = 0 then BEH_SLEEP k
          else if behaviour (snd s ! i) = 3 \<or> behaviour (snd s ! i) = 10 then BEH_FLEE k
          else if behaviour (snd s ! i) = 1 \<or> behaviour (snd s ! i) = 6 then BEH_SEEK k
          else fst s)"
  using assms by (cases s) (simp add: attitude_slot_def Let_def has_ench_def)

lemma tag_missing_level_attitude_slot:
  assumes "i < length menv" "0 \<le> type_m (menv ! i)"
  shows "foe (tag_missing_level_attitude k menv ! i) = MHITNOT k
     \<and> attitude (tag_missing_level_attitude k menv ! i) =
         (if testbits (flags (menv ! i)) (MF_CREATED_FRIENDLY k)
             \<or> (behaviour (menv ! i) = 7 \<and> \<not> has_ench (menv ! i) (ENCH_CHARM k))
          then ATT_FRIENDLY else ATT_HOSTILE)
     \<and> (behaviour (menv ! i) = 0 \<longrightarrow> behaviour (tag_missing_level_attitude k menv ! i) = BEH_SLEEP k)
     \<and> (behaviour (menv ! i) = 3 \<or> behaviour (menv ! i) = 10 \<longrightarrow>
          behaviour (tag_missing_level_attitude k menv ! i) = BEH_FLEE k)
     \<and> (behaviour (menv ! i) = 1 \<or> behaviour (menv ! i) = 6 \<longrightarrow>
          behaviour (tag_missing_level_attitude k menv ! i) = BEH_SEEK k)"
proof -
  let ?s1 = "fold (attitude_slot k) [0..<i] (BEH_WANDER k, menv)"
  let ?s2 = "attitude_slot k i ?s1"
  have split: "[0..<length menv] = [0..<i] @ i # [Suc i..<length menv]"
    using assms(1) by (metis less_imp_le_nat upt_add_eq_append upt_conv_Cons le0 le_add_diff_inverse add.commute)
  have res: "tag_missing_level_attitude k menv = snd (fold (attitude_slot k) [Suc i..<length menv] ?s2)"
    by (simp add: tag_missing_level_attitude_def split)
  have l1: "length (snd ?s1) = length menv" by (simp add: fold_attitude_slot_length)
  have m1: "snd ?s1 ! i = menv ! i" by (simp add: fold_attitude_slot_untouched)
  have at: "tag_missing_level_attitude k menv ! i = snd ?s2 ! i"
    unfolding res by (simp add: fold_attitude_slot_untouched)
  from attitude_slot_at[of i ?s1 k] assms l1 m1 show ?thesis
    unfolding at by simp
qed

text \<open>
  C7. The behaviour that a legacy code outside 0, 1, 3, 6, 10 gets is the value of
  \<open>new_beh\<close> left by the monsters before it, since \<open>new_beh\<close> is set to \<open>BEH_WANDER\<close> once,
  before the loop. In a table of a sleeping monster (code 0) followed by a monster with
  code 2, the second gets \<open>BEH_SLEEP\<close> (here 0); alone in the table it gets \<open>BEH_WANDER\<close>
  (here 1).
\<close>

theorem tag_missing_level_attitude_carries_behaviour:
  "map behaviour
     (tag_missing_level_attitude
        \<lparr>MHITNOT = 201, MF_CREATED_FRIENDLY = 1, ENCH_CHARM = 5,
         BEH_SLEEP = 0, BEH_WANDER = 1, BEH_SEEK = 2, BEH_FLEE = 3\<rparr>
        [\<lparr>type_m = 0, flags = 0, behaviour = 0, attitude = ATT_HOSTILE, foe = 0, foe_memory = 0,
           enchantments = {}\<rparr>,
         \<lparr>type_m = 0, flags = 0, behaviour = 2, attitude = ATT_HOSTILE, foe = 0, foe_memory = 0,
           enchantments = {}\<rparr>]) = [0, 0]
   \<and> map behaviour
     (tag_missing_level_attitude
        \<lparr>MHITNOT = 201, MF_CREATED_FRIENDLY = 1, ENCH_CHARM = 5,
         BEH_SLEEP = 0, BEH_WANDER = 1, BEH_SEEK = 2, BEH_FLEE = 3\<rparr>
        [\<lparr>type_m = 0, flags = 0, behaviour = 2, attitude = ATT_HOSTILE, foe = 0, foe_memory = 0,
           enchantments = {}\<rparr>]) = [1]"
  by (simp add: tag_missing_level_attitude_def attitude_slot_def testbits_def has_ench_def Let_def)

subsection \<open>Run-length grid codec\<close>

lemma expand_rle_pairs:
  "0 \<le> nlast \<Longrightarrow> expand_pairs (rle_pairs cs last0 nlast) = replicate (nat nlast) last0 @ cs"
proof (induction cs arbitrary: last0 nlast)
  case Nil
  then show ?case by (simp add: expand_pairs_def)
next
  case (Cons c cs)
  show ?case
  proof (cases "nlast = 0")
    case True
    with Cons.IH[of 1 c] show ?thesis by simp
  next
    case nz: False
    show ?thesis
    proof (cases "last0 = c \<and> nlast < 255")
      case True
      have "nat (nlast + 1) = Suc (nat nlast)" using Cons.prems by simp
      with True nz Cons.IH[of "nlast + 1" c] Cons.prems show ?thesis
        by (simp add: replicate_append_same)
    next
      case False
      with nz Cons.IH[of 1 c] show ?thesis
        by (auto simp: expand_pairs_def)
    qed
  qed
qed

lemma runs_rle_pairs:
  "0 \<le> nlast \<Longrightarrow> nlast \<le> 255 \<Longrightarrow> 1 \<le> nlast \<or> cs \<noteq> [] \<Longrightarrow>
   (n, v) \<in> set (rle_pairs cs last0 nlast) \<Longrightarrow> 1 \<le> n \<and> n \<le> 255"
proof (induction cs arbitrary: last0 nlast)
  case Nil
  then show ?case by simp
next
  case (Cons c cs)
  show ?case
  proof (cases "nlast = 0")
    case True
    with Cons.prems(4) have "(n, v) \<in> set (rle_pairs cs c 1)" by simp
    with Cons.IH[of 1 c] show ?thesis by simp
  next
    case nz: False
    show ?thesis
    proof (cases "last0 = c \<and> nlast < 255")
      case True
      with nz Cons.prems(4) have "(n, v) \<in> set (rle_pairs cs c (nlast + 1))" by simp
      with Cons.IH[of "nlast + 1" c] True Cons.prems(1) show ?thesis by simp
    next
      case False
      with nz Cons.prems(4) have "(n, v) = (nlast, last0) \<or> (n, v) \<in> set (rle_pairs cs c 1)"
        by auto
      with Cons.IH[of 1 c] nz Cons.prems(1,2) show ?thesis by auto
    qed
  qed
qed

lemma length_rle_pairs:
  "length (rle_pairs cs last0 nlast) \<le> length cs + 1
   \<and> (nlast = 0 \<and> cs \<noteq> [] \<longrightarrow> length (rle_pairs cs last0 nlast) \<le> length cs)"
proof (induction cs arbitrary: last0 nlast)
  case Nil
  then show ?case by simp
next
  case (Cons c cs)
  have a: "length (rle_pairs cs c 1) \<le> length cs + 1" using Cons.IH[of c 1] by simp
  have b: "length (rle_pairs cs c (nlast + 1)) \<le> length cs + 1" using Cons.IH[of c "nlast + 1"] by simp
  show ?case
  proof (cases "nlast = 0")
    case True
    with a show ?thesis by simp
  next
    case nz: False
    with a b show ?thesis by auto
  qed
qed


lemma marshallByte_buf:
  "file_p th = None \<Longrightarrow> 0 \<le> offset th \<Longrightarrow> offset th < int (length buf) \<Longrightarrow>
   marshallByte th c buf = Inr (th\<lparr>offset := offset th + 1\<rparr>, memcpy_to buf (nat (offset th)) [c])"
  by (simp add: marshallByte_def writeByte_buf)

lemma marshall_pair_buf:
  assumes "file_p th = None" "0 \<le> offset th" "offset th + 2 \<le> int (length buf)"
  shows "marshallByte th a buf =
           Inr (th\<lparr>offset := offset th + 1\<rparr>, memcpy_to buf (nat (offset th)) [a])"
    and "marshallByte (th\<lparr>offset := offset th + 1\<rparr>) b (memcpy_to buf (nat (offset th)) [a]) =
           Inr (th\<lparr>offset := offset th + 2\<rparr>, memcpy_to buf (nat (offset th)) [a, b])"
  using assms
  by (simp_all add: marshallByte_buf length_memcpy_to nat_add_distrib memcpy_to_snoc)

lemma pair_bytes_simps:
  "pair_bytes [] = []"
  "pair_bytes ((n, v) # ps) = [word_of_int n, word_of_int v] @ pair_bytes ps"
  "length (pair_bytes ps) = 2 * length ps"
  by (induction ps) (auto simp: pair_bytes_def)

lemma rle_fold_buf:
  assumes "file_p th = None" "0 \<le> offset th"
    and "offset th + 2 * int (length (rle_pairs cs last0 nlast)) \<le> int (length buf)"
  shows "rle_flush (fold rle_next cs (Inr (last0, nlast, th, buf))) =
         Inr (th\<lparr>offset := offset th + 2 * int (length (rle_pairs cs last0 nlast))\<rparr>,
              memcpy_to buf (nat (offset th)) (pair_bytes (rle_pairs cs last0 nlast)))"
  using assms
proof (induction cs arbitrary: last0 nlast th buf)
  case Nil
  then have r2: "offset th + 2 \<le> int (length buf)" by simp
  note mp = marshall_pair_buf(1)[OF Nil(1,2) r2, where a = "word_of_int nlast"]
    marshall_pair_buf(2)[OF Nil(1,2) r2, where a = "word_of_int nlast" and b = "word_of_int last0"]
  show ?case
    by (simp add: rle_flush_def mp pair_bytes_simps)
next
  case (Cons c cs)
  let ?l1 = "if nlast = 0 then c else last0"
  show ?case
  proof (cases "?l1 = c \<and> nlast < 255")
    case True
    have step: "rle_next c (Inr (last0, nlast, th, buf)) = Inr (?l1, nlast + 1, th, buf)"
      unfolding rle_next_def rle_cell_def Let_def
      by (simp only: sum.case prod.case if_P[OF True])
    have ps: "rle_pairs (c # cs) last0 nlast = rle_pairs cs ?l1 (nlast + 1)"
      by (subst rle_pairs.simps, rule if_P, rule True)
    show ?thesis
      using Cons.IH[of th ?l1 "nlast + 1" buf] Cons.prems
      unfolding ps by (simp only: fold_Cons comp_apply step) 
  next
    case False
    let ?th2 = "th\<lparr>offset := offset th + 2\<rparr>"
    let ?p = "[word_of_int nlast, word_of_int ?l1] :: byte list"
    let ?buf2 = "memcpy_to buf (nat (offset th)) ?p"
    have ps: "rle_pairs (c # cs) last0 nlast = (nlast, ?l1) # rle_pairs cs c 1"
      by (subst rle_pairs.simps, rule if_not_P, rule False)
    have room: "offset th + 2 + 2 * int (length (rle_pairs cs c 1)) \<le> int (length buf)"
      using Cons.prems(3) unfolding ps by simp
    then have r2: "offset th + 2 \<le> int (length buf)" by simp
    note mp = marshall_pair_buf(1)[OF Cons.prems(1,2) r2, where a = "word_of_int nlast"]
      marshall_pair_buf(2)[OF Cons.prems(1,2) r2, where a = "word_of_int nlast"
        and b = "word_of_int ?l1"]
    have l1c: "\<not> (?l1 = c \<and> nlast < 255)" by (rule False)
    have step: "rle_next c (Inr (last0, nlast, th, buf)) = Inr (c, 1, ?th2, ?buf2)"
      unfolding rle_next_def rle_cell_def Let_def
      by (simp only: sum.case prod.case if_not_P[OF l1c] mp)
    have l2: "length ?buf2 = length buf"
      using Cons.prems(2) r2 by (simp add: length_memcpy_to)
    have ih: "rle_flush (fold rle_next cs (Inr (c, 1, ?th2, ?buf2))) =
         Inr (?th2\<lparr>offset := offset ?th2 + 2 * int (length (rle_pairs cs c 1))\<rparr>,
              memcpy_to ?buf2 (nat (offset ?th2)) (pair_bytes (rle_pairs cs c 1)))"
      using Cons.prems(1,2) room l2 by (intro Cons.IH) simp_all
    have "nat (offset ?th2) = nat (offset th) + length ?p"
      "nat (offset th) + length ?p + length (pair_bytes (rle_pairs cs c 1)) \<le> length buf"
      using Cons.prems(2) room by (simp_all add: nat_add_distrib pair_bytes_simps)
    then have c: "memcpy_to ?buf2 (nat (offset ?th2)) (pair_bytes (rle_pairs cs c 1)) =
             memcpy_to buf (nat (offset th)) (?p @ pair_bytes (rle_pairs cs c 1))"
      by (rule memcpy_to_append_eq)
    show ?thesis
      unfolding ps by (simp only: fold_Cons comp_apply step ih c) (simp add: pair_bytes_simps)
  qed
qed

lemma fold_scan:
  "fold (\<lambda>y. fold (\<lambda>x. f (g x y)) [0..<width]) ys s =
   fold f (concat (map (\<lambda>y. map (\<lambda>x. g x y) [0..<width]) ys)) s"
  by (induction ys arbitrary: s) (simp_all add: fold_map comp_def)

lemma run_length_encode_buf:
  assumes "file_p th = None" "0 \<le> offset th"
    and "ps = rle_pairs (map cell_to_int (scan_cells g width height)) 0 0"
    and "offset th + 2 * int (length ps) \<le> int (length buf)"
  shows "run_length_encode cell_to_int th g width height buf =
         Inr (th\<lparr>offset := offset th + 2 * int (length ps)\<rparr>,
              memcpy_to buf (nat (offset th)) (pair_bytes ps))"
proof -
  have sc: "concat (map (\<lambda>y. map (\<lambda>x. cell_to_int (g x y)) [0..<width]) [0..<height])
            = map cell_to_int (scan_cells g width height)"
    by (simp add: scan_cells_def map_concat comp_def)
  have "run_length_encode cell_to_int th g width height buf =
        rle_flush (fold rle_next (map cell_to_int (scan_cells g width height)) (Inr (0, 0, th, buf)))"
    unfolding run_length_encode_def
    by (simp only: fold_scan[of rle_next "\<lambda>x y. cell_to_int (g x y)"] sc)
  with rle_fold_buf[OF assms(1,2), of "map cell_to_int (scan_cells g width height)" 0 0 buf] assms(3,4)
  show ?thesis by simp
qed


lemma cell_position:
  fixes width off x y :: nat
  assumes "0 < width"
  shows "(x = off mod width \<and> y = off div width) \<longleftrightarrow> (x < width \<and> y * width + x = off)"
proof
  assume "x = off mod width \<and> y = off div width"
  with assms div_mult_mod_eq[of off width] show "x < width \<and> y * width + x = off" by simp
next
  assume a: "x < width \<and> y * width + x = off"
  then have "off mod width = x" "off div width = y" by auto
  then show "x = off mod width \<and> y = off div width" by simp
qed

lemma fill_run_ok:
  "off + n \<le> width * height \<Longrightarrow>
   \<exists>g'. fill_run n g v width height off = Inr (g', off + n)
      \<and> (\<forall>x y. g' x y = (if x < width \<and> off \<le> y * width + x \<and> y * width + x < off + n
                         then v else g x y))"
proof (induction n arbitrary: g off)
  case 0
  then show ?case by auto
next
  case (Suc n)
  let ?x0 = "off mod width" and ?y0 = "off div width"
  let ?g2 = "g(?x0 := (g ?x0)(?y0 := v))"
  from Suc.prems have lt: "off < width * height" by simp
  then have w: "0 < width" by (cases width) simp_all
  from lt w have in_grid: "?x0 < width \<and> ?y0 < height"
    by (simp add: div_less_iff_less_mult mult.commute)
  from Suc.prems have "(off + 1) + n \<le> width * height" by simp
  from Suc.IH[OF this, of ?g2] obtain g' where
    r: "fill_run n ?g2 v width height (off + 1) = Inr (g', off + 1 + n)"
    and c: "\<And>x y. g' x y = (if x < width \<and> off + 1 \<le> y * width + x \<and> y * width + x < off + 1 + n
                         then v else ?g2 x y)"
    by blast
  have g2: "?g2 x y = (if x < width \<and> y * width + x = off then v else g x y)" for x y
    using cell_position[OF w, of x off y] by auto
  have "fill_run (Suc n) g v width height off = Inr (g', off + Suc n)"
    using in_grid r by (simp add: Let_def)
  moreover have "g' x y = (if x < width \<and> off \<le> y * width + x \<and> y * width + x < off + Suc n
                         then v else g x y)" for x y
    unfolding c g2 by auto
  ultimately show ?case by blast
qed

lemma unat_run: "1 \<le> n \<Longrightarrow> n \<le> 255 \<Longrightarrow> unat (word_of_int n :: byte) = nat n"
  by (simp add: unat_eq_nat_uint uint_word_of_int_eq take_bit_eq_mod)

lemma drop_two:
  assumes "drop k buf = a # b # zs"
  shows "k + 2 \<le> length buf" "buf ! k = a" "buf ! (k + 1) = b" "drop (k + 2) buf = zs"
proof -
  have l: "length (drop k buf) = Suc (Suc (length zs))" using assms by simp
  then show "k + 2 \<le> length buf" by simp
  show "buf ! k = a" using assms by (rule nth_via_drop)
  have "drop (Suc k) buf = drop 1 (drop k buf)" by simp
  with assms have d1: "drop (Suc k) buf = b # zs" by simp
  then show "buf ! (k + 1) = b" using nth_via_drop[of "Suc k" buf b zs] by simp
  have "drop (k + 2) buf = drop 1 (drop (Suc k) buf)" by simp
  with d1 show "drop (k + 2) buf = zs" by simp
qed


lemma expand_pairs_Cons:
  "expand_pairs ((n, v) # ps) = replicate (nat n) v @ expand_pairs ps"
  by (simp add: expand_pairs_def)

lemma rld_loop_pairs:
  assumes "file_p th = None" "0 \<le> offset th"
    and "drop (nat (offset th)) buf = pair_bytes ps @ rest"
    and "\<forall>(n, v) \<in> set ps. 1 \<le> n \<and> n \<le> 255"
    and "off + length (expand_pairs ps) = width * height"
  shows "\<exists>g'. rld_loop int_to_cell width height buf th g off =
               Inr (th\<lparr>offset := offset th + 2 * int (length ps)\<rparr>, g')
      \<and> (\<forall>x y. g' x y =
            (if x < width \<and> off \<le> y * width + x \<and> y * width + x < width * height
             then int_to_cell (sint (word_of_int (expand_pairs ps ! (y * width + x - off)) :: byte))
             else g x y))"
  using assms
proof (induction ps arbitrary: th g off)
  case Nil
  then have "off = width * height" by (simp add: expand_pairs_def)
  then show ?case by (subst rld_loop.simps) auto
next
  case (Cons p ps)
  obtain n v where p: "p = (n, v)" by (cases p)
  let ?k = "nat (offset th)"
  let ?rb = "word_of_int n :: byte" and ?vb = "word_of_int v :: byte"
  let ?c = "int_to_cell (sint ?vb)"
  from Cons.prems(4) p have n: "1 \<le> n" "n \<le> 255" by auto
  from Cons.prems(3) p have d: "drop ?k buf = ?rb # ?vb # (pair_bytes ps @ rest)"
    by (simp add: pair_bytes_simps)
  note d2 = drop_two[OF d]
  have tot: "off + nat n + length (expand_pairs ps) = width * height"
    using Cons.prems(5) p by (simp add: expand_pairs_Cons)
  then have lt: "off < width * height" using n by simp
  have r1: "unmarshallByte th buf = Inr (?rb, th\<lparr>offset := offset th + 1\<rparr>)"
    using Cons.prems(1,2) d2(1,2) by (simp add: unmarshallByte_def readByte_buf)
  have r2: "unmarshallByte (th\<lparr>offset := offset th + 1\<rparr>) buf = Inr (?vb, th\<lparr>offset := offset th + 2\<rparr>)"
    using Cons.prems(1,2) d2(1,3) by (simp add: unmarshallByte_def readByte_buf nat_add_distrib)
  from tot have "off + nat n \<le> width * height" by simp
  from fill_run_ok[OF this, of g ?c] obtain g1 where
    f: "fill_run (nat n) g ?c width height off = Inr (g1, off + nat n)"
    and g1: "\<And>x y. g1 x y = (if x < width \<and> off \<le> y * width + x \<and> y * width + x < off + nat n
                         then ?c else g x y)"
    by blast
  let ?th2 = "th\<lparr>offset := offset th + 2\<rparr>"
  have d': "drop (nat (offset ?th2)) buf = pair_bytes ps @ rest"
    using d2(4) Cons.prems(2) by (simp add: nat_add_distrib)
  have runs: "\<forall>(n, v) \<in> set ps. 1 \<le> n \<and> n \<le> 255" using Cons.prems(4) by simp
  from Cons.IH[of ?th2 "off + nat n" g1, OF _ _ d' runs tot] Cons.prems(1,2)
  obtain g' where
    l: "rld_loop int_to_cell width height buf ?th2 g1 (off + nat n) =
          Inr (?th2\<lparr>offset := offset ?th2 + 2 * int (length ps)\<rparr>, g')"
    and g': "\<And>x y. g' x y =
            (if x < width \<and> off + nat n \<le> y * width + x \<and> y * width + x < width * height
             then int_to_cell (sint (word_of_int (expand_pairs ps ! (y * width + x - (off + nat n))) :: byte))
             else g1 x y)"
    by auto
  have "rld_loop int_to_cell width height buf th g off =
        Inr (th\<lparr>offset := offset th + 2 * int (length (p # ps))\<rparr>, g')"
    using lt unat_run[OF n] by (subst rld_loop.simps) (simp add: r1 r2 f l)
  moreover have "g' x y =
            (if x < width \<and> off \<le> y * width + x \<and> y * width + x < width * height
             then int_to_cell (sint (word_of_int (expand_pairs (p # ps) ! (y * width + x - off)) :: byte))
             else g x y)" for x y
  proof (cases "x < width \<and> off + nat n \<le> y * width + x \<and> y * width + x < width * height")
    case True
    then have "\<not> y * width + x - off < nat n"
      "y * width + x - off - nat n = y * width + x - (off + nat n)" by arith+
    then have "expand_pairs (p # ps) ! (y * width + x - off) = expand_pairs ps ! (y * width + x - (off + nat n))"
      by (simp add: p expand_pairs_Cons nth_append)
    with True show ?thesis unfolding g' by simp
  next
    case False
    show ?thesis
    proof (cases "x < width \<and> off \<le> y * width + x \<and> y * width + x < off + nat n")
      case True
      then have "y * width + x - off < nat n" by arith
      then have "expand_pairs (p # ps) ! (y * width + x - off) = v"
        by (simp add: p expand_pairs_Cons nth_append)
      with True False tot show ?thesis unfolding g' g1 by simp
    next
      case f2: False
      with False tot show ?thesis unfolding g' g1 by auto
    qed
  qed
  ultimately show ?case by blast
qed

lemma scan_cells_Suc:
  "scan_cells g width (Suc height) = scan_cells g width height @ map (\<lambda>x. g x height) [0..<width]"
  by (simp add: scan_cells_def)

lemma length_scan_cells: "length (scan_cells g width height) = height * width"
  by (induction height) (simp_all add: scan_cells_Suc, simp add: scan_cells_def)

lemma nth_scan_cells:
  "x < width \<Longrightarrow> y < height \<Longrightarrow> scan_cells g width height ! (y * width + x) = g x y"
proof (induction height)
  case 0
  then show ?case by simp
next
  case (Suc height)
  show ?case
  proof (cases "y < height")
    case True
    then have "y * width + x < height * width"
      using Suc.prems(1)
      by (metis add.commute less_le_trans mult_Suc Suc_leI mult_le_mono1 add_less_cancel_left nat_add_left_cancel_less)
    with True Suc show ?thesis
      by (simp add: scan_cells_Suc nth_append length_scan_cells)
  next
    case False
    with Suc.prems have "y = height" by simp
    with Suc.prems(1) show ?thesis
      by (simp add: scan_cells_Suc nth_append length_scan_cells)
  qed
qed


lemma position_in_grid:
  fixes x y width height :: nat
  assumes "x < width"
  shows "y * width + x < width * height \<longleftrightarrow> y < height"
proof
  assume a: "y * width + x < width * height"
  show "y < height"
  proof (rule ccontr)
    assume "\<not> y < height"
    then have "height * width \<le> y * width" by (intro mult_le_mono1) simp
    then have "width * height \<le> y * width" by (simp only: mult.commute)
    with a show False by linarith
  qed
next
  assume "y < height"
  then have "Suc y * width \<le> height * width" by (intro mult_le_mono1) simp
  then have "y * width + width \<le> width * height" by (simp add: mult.commute)
  with assms show "y * width + x < width * height" by linarith
qed

text \<open>
  C6. A header bound to the tag buffer, a grid of \<open>width\<close> by \<open>height\<close> cells (both at least
  1), room for the encoding at the cursor, and cell values that survive the conversion to
  the \<open>char\<close> that \<open>marshallByte\<close> writes and back (every value of an 8-bit cell type; the
  values from -128 to 127 of a wider one). \<open>run_length_encode\<close> writes (run length, value)
  byte pairs whose runs are between 1 and 255 and which, expanded, are the cells in scan
  order. \<open>run_length_decode\<close> from the same cursor, into any grid, returns at the cursor
  where the encoder stopped with a grid that equals the encoded one on every cell and is
  untouched outside \<open>width\<close> by \<open>height\<close>.
\<close>

theorem run_length_round_trip:
  assumes "file_p th = None" "0 \<le> offset th" "1 \<le> width" "1 \<le> height"
    and "offset th + 2 * int (width * height) \<le> int (length buf)"
    and "\<forall>x<width. \<forall>y<height.
           int_to_cell (sint (word_of_int (cell_to_int (g x y)) :: byte)) = g x y"
  shows "\<exists>th1 buf1 g1 ps.
           run_length_encode cell_to_int th g width height buf = Inr (th1, buf1)
         \<and> buf1 = memcpy_to buf (nat (offset th)) (pair_bytes ps)
         \<and> (\<forall>(n, v) \<in> set ps. 1 \<le> n \<and> n \<le> 255)
         \<and> expand_pairs ps = map cell_to_int (scan_cells g width height)
         \<and> run_length_decode int_to_cell th g0 width height buf1 = Inr (th1, g1)
         \<and> (\<forall>x y. g1 x y = (if x < width \<and> y < height then g x y else g0 x y))"
proof -
  let ?cs = "map cell_to_int (scan_cells g width height)"
  let ?ps = "rle_pairs ?cs 0 0"
  let ?th1 = "th\<lparr>offset := offset th + 2 * int (length ?ps)\<rparr>"
  let ?buf1 = "memcpy_to buf (nat (offset th)) (pair_bytes ?ps)"
  have lcs: "length ?cs = height * width" by (simp add: length_scan_cells)
  have "0 < height * width" using assms(3,4) by simp
  with lcs have ne: "?cs \<noteq> []" by auto
  with length_rle_pairs[of ?cs 0 0] lcs have lps: "length ?ps \<le> width * height"
    by (simp add: mult.commute)
  then have "int (length ?ps) \<le> int (width * height)" by (simp only: of_nat_le_iff)
  with assms(5) have room: "offset th + 2 * int (length ?ps) \<le> int (length buf)" by linarith
  have enc: "run_length_encode cell_to_int th g width height buf = Inr (?th1, ?buf1)"
    using assms(1,2) refl room by (rule run_length_encode_buf)
  have runs: "\<forall>(n, v) \<in> set ?ps. 1 \<le> n \<and> n \<le> 255"
    using runs_rle_pairs[of 0 ?cs _ _ 0] ne by auto
  have ex: "expand_pairs ?ps = ?cs"
    using expand_rle_pairs[of 0 ?cs 0] by simp
  have fit: "nat (offset th) + length (pair_bytes ?ps) \<le> length buf"
    using room assms(2) by (simp add: pair_bytes_simps)
  have d: "drop (nat (offset th)) ?buf1 = pair_bytes ?ps @ drop (nat (offset th) + length (pair_bytes ?ps)) buf"
    using fit by (rule drop_memcpy_to)
  have tot: "0 + length (expand_pairs ?ps) = width * height"
    using lcs by (simp add: ex mult.commute)
  from rld_loop_pairs[OF assms(1,2) d runs tot, of int_to_cell g0] obtain g1 where
    dec: "rld_loop int_to_cell width height ?buf1 th g0 0 = Inr (?th1, g1)"
    and g1: "\<And>x y. g1 x y =
            (if x < width \<and> 0 \<le> y * width + x \<and> y * width + x < width * height
             then int_to_cell (sint (word_of_int (expand_pairs ?ps ! (y * width + x - 0)) :: byte))
             else g0 x y)"
    by blast
  have "g1 x y = (if x < width \<and> y < height then g x y else g0 x y)" for x y
  proof (cases "x < width \<and> y < height")
    case True
    then have lt: "y * width + x < width * height" by (simp add: position_in_grid)
    then have "y * width + x < length (scan_cells g width height)"
      by (simp only: length_scan_cells mult.commute[of height width])
    then have "?cs ! (y * width + x) = cell_to_int (scan_cells g width height ! (y * width + x))"
      by (rule nth_map)
    also have "\<dots> = cell_to_int (g x y)"
      using nth_scan_cells[of x width y height g] True by simp
    finally have "?cs ! (y * width + x) = cell_to_int (g x y)" .
    with True lt assms(6) show ?thesis unfolding g1 ex by simp
  next
    case False
    then have "\<not> (x < width \<and> y * width + x < width * height)"
      using position_in_grid[of x width y height] by auto
    with False show ?thesis unfolding g1 by auto
  qed
  with enc runs ex dec show ?thesis
    unfolding run_length_decode_def by blast
qed


theorem run_length_round_trip_witness:
  "file_p new_tagHeader = None \<and> 0 \<le> offset new_tagHeader \<and> (1 :: nat) \<le> 2 \<and> (1 :: nat) \<le> 2
   \<and> offset new_tagHeader + 2 * int (2 * 2) \<le> int (length (replicate 8 (0 :: byte)))
   \<and> (\<exists>th1 buf1 g1 ps.
         run_length_encode uint new_tagHeader (\<lambda>(x :: nat) (y :: nat). if x = 0 then 200 else 7 :: byte) 2 2
           (replicate 8 0) = Inr (th1, buf1)
       \<and> buf1 = memcpy_to (replicate 8 0) (nat (offset new_tagHeader)) (pair_bytes ps)
       \<and> (\<forall>(n, v) \<in> set ps. 1 \<le> n \<and> n \<le> 255)
       \<and> expand_pairs ps = map uint (scan_cells (\<lambda>x y. if x = 0 then 200 else 7 :: byte) 2 2)
       \<and> run_length_decode word_of_int new_tagHeader (\<lambda>x y. 0 :: byte) 2 2 buf1 = Inr (th1, g1)
       \<and> (\<forall>x y. g1 x y = (if x < 2 \<and> y < 2 then (if x = 0 then 200 else 7) else 0)))"
proof -
  have h: "file_p new_tagHeader = None" "0 \<le> offset new_tagHeader" "(1 :: nat) \<le> 2" "(1 :: nat) \<le> 2"
    "offset new_tagHeader + 2 * int (2 * 2) \<le> int (length (replicate 8 (0 :: byte)))"
    by (simp_all add: new_tagHeader_def)
  have c: "\<forall>x<2 :: nat. \<forall>y<2 :: nat.
         (word_of_int (sint (word_of_int (uint (if x = 0 then 200 else 7 :: byte)) :: byte)) :: byte) =
         (if x = 0 then 200 else 7)"
    by simp
  note r = run_length_round_trip[of new_tagHeader 2 2 "replicate 8 0" word_of_int uint
      "\<lambda>x y. if x = 0 then 200 else 7" "\<lambda>x y. 0", OF h c]
  show ?thesis
    by (intro conjI) (rule h r)+
qed

end
